theory Spec2Isabelle
  imports Complex_Main
begin

section \<open>Data model of the block controller\<close>

text \<open>
  The development follows the current \<^verbatim>\<open>server/controllers/blockController.js\<close> (the
  version that exports \<^verbatim>\<open>getWaitingBlock\<close> and \<^verbatim>\<open>validateBlockchain\<close>). MongoDB
  collections are lists in insertion order, a document's \<^verbatim>\<open>_id\<close> is a natural number
  drawn from a counter, and status values are the strings the source writes.
\<close>

text \<open>
  A record of the Transaction or SupplyChain collection, also embedded in a block.
  \<open>amount = None\<close> stands for an object without an \<^verbatim>\<open>amount\<close> key.
\<close>

record rcd =
  rcd_id :: nat
  rstatus :: string
  amount :: "string option"
  content :: string

text \<open>A document of the ApprovedRecord collection: \<^verbatim>\<open>_id\<close> and the \<^verbatim>\<open>records\<close> field.\<close>

record approvedRecord =
  ar_id :: nat
  ar_records :: rcd

record user =
  username :: string
  role :: string

text \<open>A document of the Block collection; \<open>oid\<close> is the \<^verbatim>\<open>_id\<close>.\<close>

record block =
  oid :: nat
  blockId :: int
  prevHash :: string
  hash :: string
  timestamp :: string
  status :: string
  records :: "rcd list"
  approvedBy :: "string list"
  rejectedBy :: "string list"

text \<open>
  The database, the \<^verbatim>\<open>_id\<close> counter and the number of times the wall clock has been read.
\<close>

record store =
  blocks :: "block list"
  users :: "user list"
  transactions :: "rcd list"
  supplychains :: "rcd list"
  approvedRecords :: "approvedRecord list"
  nextOid :: nat
  clock :: nat

text \<open>
  What the controller imports and does not define: the SHA-256 digest in hexadecimal,
  \<^verbatim>\<open>JSON.stringify\<close> on a record array, \<^verbatim>\<open>checkTransactionValidity\<close> of the transaction
  controller, the text \<^verbatim>\<open>new Date().toLocaleString("en-GB")\<close> gives at its k-th reading,
  and the values the Block schema gives \<^verbatim>\<open>blockId\<close>, \<^verbatim>\<open>prevHash\<close> and \<^verbatim>\<open>hash\<close> of a block
  created without them.
\<close>

record lib =
  sha256_hex :: "string \<Rightarrow> string"
  JSON_stringify :: "rcd list \<Rightarrow> string"
  checkTransactionValidity :: "rcd \<Rightarrow> bool"
  toLocaleString :: "nat \<Rightarrow> string"
  schema_blockId :: int
  schema_prevHash :: string
  schema_hash :: string

datatype error = NotFoundError nat | BadRequestError string | TypeError

type_synonym 'a result = "(error + 'a) \<times> store"

definition CONSENSUS_THRESHOLD :: rat where
  "CONSENSUS_THRESHOLD = 66 / 100"

definition GENESIS_BLOCK_ID :: int where
  "GENESIS_BLOCK_ID = 0"

definition MAX_RECORD :: nat where
  "MAX_RECORD = 2"

section \<open>JavaScript and MongoDB primitives\<close>

text \<open>
  The quotient of two array lengths as a JavaScript number: \<open>0 / 0\<close> is NaN, \<open>a / 0\<close> is
  Infinity for positive \<open>a\<close>. A finite quotient is kept exact: the double nearest to
  \<open>a / n\<close> compares with the double nearest to 0.66 as the exact values do for every
  \<open>n\<close> below \<open>8 * 10^14\<close>, since \<open>a / n < 0.66\<close> leaves a gap of at least \<open>1 / (50 n)\<close>.
\<close>

datatype jsnum = NaN | Infinity | Num rat

definition js_div :: "nat \<Rightarrow> nat \<Rightarrow> jsnum" where
  "js_div a n = (if n = 0 then (if a = 0 then NaN else Infinity) else Num (of_nat a / of_nat n))"

fun js_ge :: "jsnum \<Rightarrow> rat \<Rightarrow> bool" where
  "js_ge NaN t = False"
| "js_ge Infinity t = True"
| "js_ge (Num q) t = (t \<le> q)"

text \<open>\<^verbatim>\<open>a || b\<close> on strings: the empty string is the only falsy one.\<close>

definition js_or :: "string \<Rightarrow> string \<Rightarrow> string" where
  "js_or a b = (if a = [] then b else a)"

text \<open>\<^verbatim>\<open>Number.prototype.toString\<close> on an integer: its decimal digits.\<close>

definition digit_char :: "nat \<Rightarrow> char" where
  "digit_char d = char_of (48 + d)"

function dec :: "nat \<Rightarrow> string" where
  "dec n = (if n < 10 then [digit_char n] else dec (n div 10) @ [digit_char (n mod 10)])"
  by pat_completeness auto
termination
  by (relation "measure id") auto

declare dec.simps [simp del]

definition toString :: "int \<Rightarrow> string" where
  "toString i = (if i < 0 then CHR ''-'' # dec (nat (- i)) else dec (nat i))"

fun findOne :: "('a \<Rightarrow> bool) \<Rightarrow> 'a list \<Rightarrow> 'a option" where
  "findOne P [] = None"
| "findOne P (x # xs) = (if P x then Some x else findOne P xs)"

text \<open>\<^verbatim>\<open>findOneAndUpdate(filter, update, { new: true })\<close>: the updated document, or null.\<close>

fun findOneAndUpdate :: "('a \<Rightarrow> bool) \<Rightarrow> ('a \<Rightarrow> 'a) \<Rightarrow> 'a list \<Rightarrow> 'a option \<times> 'a list" where
  "findOneAndUpdate P f [] = (None, [])"
| "findOneAndUpdate P f (x # xs) =
     (if P x then (Some (f x), f x # xs)
      else (case findOneAndUpdate P f xs of (r, ys) \<Rightarrow> (r, x # ys)))"

definition updateMany :: "('a \<Rightarrow> bool) \<Rightarrow> ('a \<Rightarrow> 'a) \<Rightarrow> 'a list \<Rightarrow> 'a list" where
  "updateMany P f xs = map (\<lambda>x. if P x then f x else x) xs"

fun deleteOne :: "('a \<Rightarrow> bool) \<Rightarrow> 'a list \<Rightarrow> 'a list" where
  "deleteOne P [] = []"
| "deleteOne P (x # xs) = (if P x then xs else x # deleteOne P xs)"

definition addToSet :: "'a \<Rightarrow> 'a list \<Rightarrow> 'a list" where
  "addToSet x xs = (if x \<in> set xs then xs else xs @ [x])"

definition new_Date :: "lib \<Rightarrow> store \<Rightarrow> string \<times> store" where
  "new_Date L s = (toLocaleString L (clock s), s\<lparr>clock := Suc (clock s)\<rparr>)"

text \<open>
  Modelled from the spec: the Block schema (\<^verbatim>\<open>models/block.js\<close> is not among the sources).
  A block is created \<open>Hibernating\<close> with an empty record list and empty vote sets; the
  three remaining defaults are parameters.
\<close>

definition schema_block :: "lib \<Rightarrow> block" where
  "schema_block L =
     \<lparr>oid = 0, blockId = schema_blockId L, prevHash = schema_prevHash L,
      hash = schema_hash L, timestamp = [], status = ''Hibernating'', records = [],
      approvedBy = [], rejectedBy = []\<rparr>"

definition BlockModel_create :: "block \<Rightarrow> store \<Rightarrow> block \<times> store" where
  "BlockModel_create b s =
     (let d = b\<lparr>oid := nextOid s\<rparr>
      in (d, s\<lparr>blocks := blocks s @ [d], nextOid := Suc (nextOid s)\<rparr>))"

section \<open>The controller\<close>

definition computeBlockHash :: "lib \<Rightarrow> int \<Rightarrow> string \<Rightarrow> string \<Rightarrow> rcd list \<Rightarrow> string" where
  "computeBlockHash L bid prev ts record =
     sha256_hex L (toString bid @ prev @ ts @ JSON_stringify L record)"

definition createGenesisBlock :: "lib \<Rightarrow> store \<Rightarrow> block \<times> store" where
  "createGenesisBlock L s =
     (let previousHash = [];
          (ts, s1) = new_Date L s;
          record = []
      in BlockModel_create
           ((schema_block L)\<lparr>blockId := GENESIS_BLOCK_ID, prevHash := previousHash,
              hash := computeBlockHash L GENESIS_BLOCK_ID previousHash ts record,
              timestamp := ts, status := ''inChain''\<rparr>) s1)"

text \<open>
  The loop of \<^verbatim>\<open>createHibernateBlock\<close>: \<open>record\<close> is the array read before the loop,
  the deletions go to the collection. \<^verbatim>\<open>record[i].records\<close> past the end of the array
  is a property read on \<^verbatim>\<open>undefined\<close>, a TypeError.
\<close>

function hibernate_loop :: "approvedRecord list \<Rightarrow> nat \<Rightarrow> rcd list \<Rightarrow> store \<Rightarrow> rcd list result" where
  "hibernate_loop record i arr s =
     (if i < MAX_RECORD then
        (if i < length record then
           hibernate_loop record (Suc i) (arr @ [ar_records (record ! i)])
             (s\<lparr>approvedRecords :=
                  deleteOne (\<lambda>d. ar_id d = ar_id (record ! i)) (approvedRecords s)\<rparr>)
         else (Inl TypeError, s))
      else (Inr arr, s))"
  by pat_completeness auto
termination
  by (relation "measure (\<lambda>(record, i, arr, s). MAX_RECORD - i)") auto

declare hibernate_loop.simps [simp del]

definition createHibernateBlock :: "lib \<Rightarrow> store \<Rightarrow> block result" where
  "createHibernateBlock L s =
     (let arr = [];
          record = approvedRecords s
      in case (if length record > 0 then hibernate_loop record 0 arr s else (Inr arr, s)) of
           (Inl e, s1) \<Rightarrow> (Inl e, s1)
         | (Inr arr1, s1) \<Rightarrow>
             (let (ts, s2) = new_Date L s1;
                  (hibernateBlock, s3) =
                    BlockModel_create ((schema_block L)\<lparr>records := arr1, timestamp := ts\<rparr>) s2
              in (Inr hibernateBlock, s3)))"

definition updateRecordsStatus :: "store \<Rightarrow> store" where
  "updateRecordsStatus s =
     s\<lparr>transactions :=
          updateMany (\<lambda>r. rstatus r = ''inBlock'') (\<lambda>r. r\<lparr>rstatus := ''inChain''\<rparr>) (transactions s),
       supplychains :=
          updateMany (\<lambda>r. rstatus r = ''inBlock'') (\<lambda>r. r\<lparr>rstatus := ''inChain''\<rparr>) (supplychains s)\<rparr>"

definition rejectRecords :: "store \<Rightarrow> store" where
  "rejectRecords s =
     s\<lparr>transactions :=
          updateMany (\<lambda>r. rstatus r = ''inBlock'') (\<lambda>r. r\<lparr>rstatus := ''Rejected''\<rparr>) (transactions s),
       supplychains :=
          updateMany (\<lambda>r. rstatus r = ''inBlock'') (\<lambda>r. r\<lparr>rstatus := ''Rejected''\<rparr>) (supplychains s)\<rparr>"

text \<open>
  The loop over \<^verbatim>\<open>block.records[i].status = st\<close> for \<open>i < MAX_RECORD\<close>, on the document in
  memory; an index past the end is an assignment on \<^verbatim>\<open>undefined\<close>, a TypeError.
\<close>

function setStatus_loop :: "string \<Rightarrow> rcd list \<Rightarrow> nat \<Rightarrow> error + rcd list" where
  "setStatus_loop st recs i =
     (if i < MAX_RECORD then
        (if i < length recs then
           setStatus_loop st (recs[i := (recs ! i)\<lparr>rstatus := st\<rparr>]) (Suc i)
         else Inl TypeError)
      else Inr recs)"
  by pat_completeness auto
termination
  by (relation "measure (\<lambda>(st, recs, i). MAX_RECORD - i)") auto

declare setStatus_loop.simps [simp del]

text \<open>\<^verbatim>\<open>block.save()\<close> after \<^verbatim>\<open>markModified("records")\<close> writes the record list back.\<close>

definition save_records :: "block \<Rightarrow> store \<Rightarrow> store" where
  "save_records b s =
     s\<lparr>blocks := snd (findOneAndUpdate (\<lambda>d. oid d = oid b) (\<lambda>d. d\<lparr>records := records b\<rparr>) (blocks s))\<rparr>"

definition updateRecordsStatusInBlock :: "block \<Rightarrow> store \<Rightarrow> block result" where
  "updateRecordsStatusInBlock b s =
     (case setStatus_loop ''inChain'' (records b) 0 of
        Inl e \<Rightarrow> (Inl e, s)
      | Inr recs \<Rightarrow> (let b1 = b\<lparr>records := recs\<rparr> in (Inr b1, save_records b1 s)))"

definition rejectRecordsStatusInBlock :: "block \<Rightarrow> store \<Rightarrow> block result" where
  "rejectRecordsStatusInBlock b s =
     (case setStatus_loop ''Rejected'' (records b) 0 of
        Inl e \<Rightarrow> (Inl e, s)
      | Inr recs \<Rightarrow> (let b1 = b\<lparr>records := recs\<rparr> in (Inr b1, save_records b1 s)))"

text \<open>
  \<^verbatim>\<open>find({ status: "inChain" }).sort({ blockId: -1 })\<close> is a stable sort on the negated
  key; \<^verbatim>\<open>blockchain[0].blockId\<close> on an empty result is a TypeError.
\<close>

definition appendToBlockchain :: "lib \<Rightarrow> block \<Rightarrow> nat \<Rightarrow> store \<Rightarrow> block option result" where
  "appendToBlockchain L b ident s =
     (let blockchain =
            sort_key (\<lambda>d. - blockId d) (filter (\<lambda>d. status d = ''inChain'') (blocks s))
      in case blockchain of
           [] \<Rightarrow> (Inl TypeError, s)
         | latest # _ \<Rightarrow>
             (let bid = blockId latest + 1;
                  prev = hash latest;
                  (ts, s1) = new_Date L s;
                  (updatedBlock, bs1) =
                    findOneAndUpdate (\<lambda>d. oid d = ident \<and> status d = ''Approved'')
                      (\<lambda>d. d\<lparr>blockId := bid, prevHash := prev,
                              hash := computeBlockHash L bid prev ts (records b),
                              timestamp := ts, status := ''inChain''\<rparr>) (blocks s1);
                  s2 = s1\<lparr>blocks := bs1\<rparr>
              in case createHibernateBlock L s2 of
                   (Inl e, s3) \<Rightarrow> (Inl e, s3)
                 | (Inr _, s3) \<Rightarrow> (Inr updatedBlock, s3)))"

text \<open>
  \<^verbatim>\<open>blockConsensus\<close> returns the block, or \<^verbatim>\<open>undefined\<close> (\<open>None\<close>) when the block it is given
  is not Pending. A null document from \<^verbatim>\<open>findOneAndUpdate\<close> fails at \<^verbatim>\<open>block.records\<close>.
\<close>

definition blockConsensus :: "lib \<Rightarrow> block \<Rightarrow> nat \<Rightarrow> store \<Rightarrow> block option result" where
  "blockConsensus L b ident s =
     (if status b = ''Pending'' then
        (let validators = filter (\<lambda>u. role u = ''Validator'') (users s);
             approvedPercentage = js_div (length (approvedBy b)) (length validators);
             rejectedPercentage = js_div (length (rejectedBy b)) (length validators)
         in if js_ge approvedPercentage CONSENSUS_THRESHOLD then
              (case findOneAndUpdate (\<lambda>d. oid d = ident) (\<lambda>d. d\<lparr>status := ''Approved''\<rparr>) (blocks s) of
                 (blk, bs1) \<Rightarrow>
                   (let s1 = updateRecordsStatus (s\<lparr>blocks := bs1\<rparr>)
                    in case blk of
                         None \<Rightarrow> (Inl TypeError, s1)
                       | Some b1 \<Rightarrow>
                           (case updateRecordsStatusInBlock b1 s1 of
                              (Inl e, s2) \<Rightarrow> (Inl e, s2)
                            | (Inr b2, s2) \<Rightarrow> appendToBlockchain L b2 ident s2)))
            else if js_ge rejectedPercentage CONSENSUS_THRESHOLD then
              (let (ts, s0) = new_Date L s
               in case findOneAndUpdate (\<lambda>d. oid d = ident)
                         (\<lambda>d. d\<lparr>status := ''Rejected'', timestamp := ts\<rparr>) (blocks s0) of
                    (blk, bs1) \<Rightarrow>
                      (let s1 = rejectRecords (s0\<lparr>blocks := bs1\<rparr>)
                       in case blk of
                            None \<Rightarrow> (Inl TypeError, s1)
                          | Some b1 \<Rightarrow>
                              (case rejectRecordsStatusInBlock b1 s1 of
                                 (Inl e, s2) \<Rightarrow> (Inl e, s2)
                               | (Inr b2, s2) \<Rightarrow>
                                   (case createHibernateBlock L s2 of
                                      (Inl e, s3) \<Rightarrow> (Inl e, s3)
                                    | (Inr _, s3) \<Rightarrow> (Inr (Some b2), s3)))))
            else (Inr (Some b), s))
      else (Inr None, s))"

text \<open>
  The handlers. A response is the JSON body sent with status 200; \<^verbatim>\<open>getBlockchain\<close>
  answers with the array it found, or with the genesis document it has just created.
  A request's \<^verbatim>\<open>:id\<close> is taken to be a well-formed \<^verbatim>\<open>_id\<close>.
\<close>

datatype blockchain_json = Documents "block list" | Document block

definition getBlockchain :: "lib \<Rightarrow> store \<Rightarrow> blockchain_json result" where
  "getBlockchain L s =
     (let blockchain = filter (\<lambda>d. status d = ''inChain'') (blocks s)
      in if length blockchain = 0 then
           (let (genesis, s1) = createGenesisBlock L s
            in case createHibernateBlock L s1 of
                 (Inl e, s2) \<Rightarrow> (Inl e, s2)
               | (Inr _, s2) \<Rightarrow> (Inr (Document genesis), s2))
         else (Inr (Documents blockchain), s))"

definition getWaitingBlock :: "store \<Rightarrow> block option result" where
  "getWaitingBlock s =
     (Inr (findOne (\<lambda>d. status d = js_or ''Hibernating'' ''Pending'') (blocks s)), s)"

definition activateBlock :: "lib \<Rightarrow> nat \<Rightarrow> store \<Rightarrow> block option result" where
  "activateBlock L blockID s =
     (case findOne (\<lambda>d. oid d = blockID \<and> status d = ''Hibernating'') (blocks s) of
        None \<Rightarrow> (Inl (NotFoundError blockID), s)
      | Some selectedBlock \<Rightarrow>
          (let isMaxRecord = (length (records selectedBlock) = MAX_RECORD)
           in if \<not> isMaxRecord then
                (Inl (BadRequestError ''Insufficient records in this block''), s)
              else
                (let (ts, s1) = new_Date L s;
                     (activated, bs1) =
                       findOneAndUpdate (\<lambda>d. oid d = blockID)
                         (\<lambda>d. d\<lparr>status := ''Pending'', timestamp := ts\<rparr>) (blocks s1)
                 in (Inr activated, s1\<lparr>blocks := bs1\<rparr>))))"

text \<open>
  The update document
  \<^verbatim>\<open>{ $addToSet: isApproved ? { approvedBy: username } : { rejectedBy: username } }\<close>.
\<close>

definition addToSet_vote :: "bool \<Rightarrow> string \<Rightarrow> block \<Rightarrow> block" where
  "addToSet_vote isApproved uname d =
     (if isApproved then d\<lparr>approvedBy := addToSet uname (approvedBy d)\<rparr>
      else d\<lparr>rejectedBy := addToSet uname (rejectedBy d)\<rparr>)"

definition approveBlock :: "lib \<Rightarrow> nat \<Rightarrow> bool \<Rightarrow> string \<Rightarrow> store \<Rightarrow> (string \<times> block option) result" where
  "approveBlock L blockID isApproved uname s =
     (case findOne (\<lambda>d. oid d = blockID \<and> (uname \<in> set (approvedBy d) \<or> uname \<in> set (rejectedBy d)))
             (blocks s) of
        Some _ \<Rightarrow> (Inl (BadRequestError ''Already rejected or approved this block''), s)
      | None \<Rightarrow>
          (case findOneAndUpdate (\<lambda>d. oid d = blockID \<and> status d = ''Pending'')
                  (addToSet_vote isApproved uname) (blocks s) of
             (None, _) \<Rightarrow> (Inl (NotFoundError blockID), s)
           | (Some b, bs1) \<Rightarrow>
               (case blockConsensus L b blockID (s\<lparr>blocks := bs1\<rparr>) of
                  (Inl e, s2) \<Rightarrow> (Inl e, s2)
                | (Inr b', s2) \<Rightarrow>
                    (Inr (if isApproved then ''You have approved this block''
                          else ''You have rejected this block'', b'), s2))))"

fun validateBlockRecords :: "lib \<Rightarrow> rcd list \<Rightarrow> bool" where
  "validateBlockRecords L [] = True"
| "validateBlockRecords L (r # rs) =
     (if amount r \<noteq> None then
        (if \<not> checkTransactionValidity L r then False else validateBlockRecords L rs)
      else validateBlockRecords L rs)"

function validateBlocks_from :: "lib \<Rightarrow> block list \<Rightarrow> nat \<Rightarrow> bool" where
  "validateBlocks_from L bs i =
     (if i < length bs then
        (if i = 0 then
           (let genesisBlock = bs ! i
            in if hash genesisBlock \<noteq>
                    computeBlockHash L (blockId genesisBlock) (prevHash genesisBlock)
                      (timestamp genesisBlock) (records genesisBlock) then False
               else if prevHash genesisBlock \<noteq> [] then False
               else if \<not> validateBlockRecords L (records genesisBlock) then False
               else validateBlocks_from L bs (Suc i))
         else
           (let currentBlock = bs ! i;
                prevBlock = bs ! (i - 1)
            in if hash currentBlock \<noteq>
                    computeBlockHash L (blockId currentBlock) (prevHash currentBlock)
                      (timestamp currentBlock) (records currentBlock) then False
               else if prevHash currentBlock \<noteq> hash prevBlock then False
               else if \<not> validateBlockRecords L (records currentBlock) then False
               else validateBlocks_from L bs (Suc i)))
      else True)"
  by pat_completeness auto
termination
  by (relation "measure (\<lambda>(L, bs, i). length bs - i)") auto

declare validateBlocks_from.simps [simp del]

definition validateBlocks :: "lib \<Rightarrow> block list \<Rightarrow> bool" where
  "validateBlocks L bs = validateBlocks_from L bs 0"

definition validateBlockchain :: "lib \<Rightarrow> store \<Rightarrow> (bool \<times> block list) result" where
  "validateBlockchain L s =
     (let blockchain = filter (\<lambda>d. status d = ''inChain'') (blocks s);
          isValid = validateBlocks L blockchain
      in (Inr (isValid, blockchain), s))"

section \<open>Reachable stores and their invariant\<close>

text \<open>The string \<^verbatim>\<open>computeBlockHash\<close> digests when it is given a block's stored fields.\<close>

definition block_text :: "lib \<Rightarrow> block \<Rightarrow> string" where
  "block_text L b =
     toString (blockId b) @ prevHash b @ timestamp b @ JSON_stringify L (records b)"

text \<open>The chain: the result of \<^verbatim>\<open>BlockModel.find({ status: "inChain" })\<close>.\<close>

definition chain :: "store \<Rightarrow> block list" where
  "chain s = filter (\<lambda>d. status d = ''inChain'') (blocks s)"

definition validators :: "store \<Rightarrow> user list" where
  "validators s = filter (\<lambda>u. role u = ''Validator'') (users s)"

definition final :: "block \<Rightarrow> bool" where
  "final b = (status b = ''inChain'' \<or> status b = ''Rejected'')"

text \<open>
  A list of blocks is linked when its sequence numbers count up from 0, the first has an
  empty previous hash, each later one carries its predecessor's hash, and every stored
  hash is the digest of the block's stored fields.
\<close>

definition linked :: "lib \<Rightarrow> block list \<Rightarrow> bool" where
  "linked L c =
     (map blockId c = map int [0..<length c] \<and>
      (c \<noteq> [] \<longrightarrow> prevHash (c ! 0) = []) \<and>
      (\<forall>i. 0 < i \<and> i < length c \<longrightarrow> prevHash (c ! i) = hash (c ! (i - 1))) \<and>
      (\<forall>b\<in>set c. hash b =
          computeBlockHash L (blockId b) (prevHash b) (timestamp b) (records b)))"

definition store_inv :: "lib \<Rightarrow> store \<Rightarrow> bool" where
  "store_inv L s =
     (linked L (chain s) \<and>
      (blocks s \<noteq> [] \<longrightarrow> chain s \<noteq> []) \<and>
      (\<forall>b\<in>set (butlast (blocks s)). final b) \<and>
      distinct (map oid (blocks s)) \<and>
      (\<forall>b\<in>set (blocks s). oid b < nextOid s) \<and>
      (\<forall>b\<in>set (blocks s). status b = ''Pending'' \<longrightarrow> length (records b) = 2) \<and>
      (\<forall>b\<in>set (blocks s). distinct (approvedBy b @ rejectedBy b)))"

text \<open>
  One step of the system when requests are served one at a time: a handler of this
  controller runs to its end with no other request between its awaits (its writes stay
  when it throws), or the rest of the application acts. Of the rest, only its interface
  is known: it owns the users, the record collections and the pool of approved records,
  and it fills the record list of a Hibernating block; it never writes another field of
  a block. Requests that overlap are the subject of the relation \<open>interleaved\<close> below.
\<close>

inductive step :: "lib \<Rightarrow> store \<Rightarrow> store \<Rightarrow> bool" for L :: lib where
  step_getBlockchain: "step L s (snd (getBlockchain L s))"
| step_getWaitingBlock: "step L s (snd (getWaitingBlock s))"
| step_activateBlock: "step L s (snd (activateBlock L blockID s))"
| step_approveBlock: "step L s (snd (approveBlock L blockID isApproved uname s))"
| step_validateBlockchain: "step L s (snd (validateBlockchain L s))"
| step_collections:
    "step L s (s\<lparr>users := us, transactions := ts, supplychains := sc, approvedRecords := pool\<rparr>)"
| step_fill:
    "step L s
       (s\<lparr>blocks := updateMany (\<lambda>d. status d = ''Hibernating'') (\<lambda>d. d\<lparr>records := rs\<rparr>) (blocks s)\<rparr>)"

text \<open>
  The stores reachable from a database without blocks when requests are served one at a
  time.
\<close>

inductive reachable :: "lib \<Rightarrow> store \<Rightarrow> bool" for L :: lib where
  reachable_init: "blocks s = [] \<Longrightarrow> reachable L s"
| reachable_step: "reachable L s \<Longrightarrow> step L s s' \<Longrightarrow> reachable L s'"

section \<open>Requests in flight\<close>

text \<open>
  What \<^verbatim>\<open>getBlockchain\<close> does after its \<^verbatim>\<open>find\<close> has answered \<open>blockchain\<close>: the test
  on the length of that answer and the two creations, on the store as it is by then.
\<close>

definition getBlockchain_create :: "lib \<Rightarrow> block list \<Rightarrow> store \<Rightarrow> blockchain_json result" where
  "getBlockchain_create L blockchain s =
     (if length blockchain = 0 then
        (let (genesis, s1) = createGenesisBlock L s
         in case createHibernateBlock L s1 of
              (Inl e, s2) \<Rightarrow> (Inl e, s2)
            | (Inr _, s2) \<Rightarrow> (Inr (Document genesis), s2))
      else (Inr (Documents blockchain), s))"

text \<open>
  The handlers are async functions: at each \<^verbatim>\<open>await\<close> a request gives way to the
  others. A request in flight has had the answer of a read and has not yet made the write
  that follows: \<^verbatim>\<open>getBlockchain\<close> holds the chain it found (line 318) and has not yet
  tested its length; \<^verbatim>\<open>approveBlock\<close> has found no earlier vote of the user (lines
  393 to 402) and has not yet sent its update, or it holds the block its update returned
  (lines 404 to 418) and has not yet called \<^verbatim>\<open>blockConsensus\<close>.
\<close>

datatype inflight = GetChain "block list" | Vote nat bool string | Consensus block nat

text \<open>
  One step of the system with requests in flight, on a store and the list of those
  requests. A handler may run whole, as in \<open>step\<close>; \<^verbatim>\<open>getBlockchain\<close> and
  \<^verbatim>\<open>approveBlock\<close> may also stop at the awaits above, and go on from the store as the
  other requests have left it, with the value they read before. \<^verbatim>\<open>blockConsensus\<close>
  and the creation of the genesis and staging blocks run without a stop, although they
  await too: the relation has fewer runs than the program, and every store it reaches
  is a store the program reaches.
\<close>

inductive interleaved :: "lib \<Rightarrow> store \<times> inflight list \<Rightarrow> store \<times> inflight list \<Rightarrow> bool"
  for L :: lib where
  serial: "step L s s' \<Longrightarrow> interleaved L (s, fl) (s', fl)"
| getBlockchain_find:
    "interleaved L (s, fl) (s, GetChain (filter (\<lambda>d. status d = ''inChain'') (blocks s)) # fl)"
| getBlockchain_resume:
    "GetChain blockchain \<in> set fl \<Longrightarrow>
     interleaved L (s, fl)
       (snd (getBlockchain_create L blockchain s), remove1 (GetChain blockchain) fl)"
| approveBlock_check:
    "findOne (\<lambda>d. oid d = blockID \<and>
                 (uname \<in> set (approvedBy d) \<or> uname \<in> set (rejectedBy d))) (blocks s) = None \<Longrightarrow>
     interleaved L (s, fl) (s, Vote blockID isApproved uname # fl)"
| approveBlock_addToSet:
    "Vote blockID isApproved uname \<in> set fl \<Longrightarrow>
     findOneAndUpdate (\<lambda>d. oid d = blockID \<and> status d = ''Pending'')
       (addToSet_vote isApproved uname) (blocks s) = (Some b, bs1) \<Longrightarrow>
     interleaved L (s, fl)
       (s\<lparr>blocks := bs1\<rparr>, Consensus b blockID # remove1 (Vote blockID isApproved uname) fl)"
| approveBlock_notFound:
    "Vote blockID isApproved uname \<in> set fl \<Longrightarrow>
     findOneAndUpdate (\<lambda>d. oid d = blockID \<and> status d = ''Pending'')
       (addToSet_vote isApproved uname) (blocks s) = (None, bs1) \<Longrightarrow>
     interleaved L (s, fl) (s, remove1 (Vote blockID isApproved uname) fl)"
| blockConsensus_resume:
    "Consensus b blockID \<in> set fl \<Longrightarrow>
     interleaved L (s, fl)
       (snd (blockConsensus L b blockID s), remove1 (Consensus b blockID) fl)"

text \<open>
  The stores and requests in flight reachable from a database without blocks and without
  requests.
\<close>

inductive reachable_interleaved :: "lib \<Rightarrow> store \<times> inflight list \<Rightarrow> bool" for L :: lib where
  interleaved_init: "blocks s = [] \<Longrightarrow> reachable_interleaved L (s, [])"
| interleaved_step:
    "reachable_interleaved L c \<Longrightarrow> interleaved L c c' \<Longrightarrow> reachable_interleaved L c'"

section \<open>The outcome of a vote\<close>

text \<open>The two comparisons of \<^verbatim>\<open>blockConsensus\<close>, on the block returned by the vote's update.\<close>

definition approve_reached :: "store \<Rightarrow> block \<Rightarrow> bool" where
  "approve_reached s b =
     js_ge (js_div (length (approvedBy b)) (length (validators s))) CONSENSUS_THRESHOLD"

definition reject_reached :: "store \<Rightarrow> block \<Rightarrow> bool" where
  "reject_reached s b =
     js_ge (js_div (length (rejectedBy b)) (length (validators s))) CONSENSUS_THRESHOLD"

text \<open>A block of two records after \<^verbatim>\<open>updateRecordsStatusInBlock\<close> or its reject twin.\<close>

definition mark :: "string \<Rightarrow> block \<Rightarrow> block" where
  "mark st b = b\<lparr>records := map (\<lambda>r. r\<lparr>rstatus := st\<rparr>) (records b)\<rparr>"

text \<open>The update of \<^verbatim>\<open>appendToBlockchain\<close>, given the chain \<open>c\<close> in store order.\<close>

definition committed :: "lib \<Rightarrow> block list \<Rightarrow> string \<Rightarrow> block \<Rightarrow> block" where
  "committed L c ts b =
     b\<lparr>blockId := blockId (last c) + 1, prevHash := hash (last c),
       hash := computeBlockHash L (blockId (last c) + 1) (hash (last c)) ts (records b),
       timestamp := ts, status := ''inChain''\<rparr>"

text \<open>
  The store after the approve branch and after the reject branch of \<^verbatim>\<open>blockConsensus\<close>,
  before the next staging block is created; \<open>bs\<close> are the blocks before the voted one.
\<close>

definition approve_store :: "lib \<Rightarrow> store \<Rightarrow> block list \<Rightarrow> block \<Rightarrow> store" where
  "approve_store L s bs b =
     (updateRecordsStatus s)
       \<lparr>clock := Suc (clock s),
        blocks := bs @ [committed L (filter (\<lambda>d. status d = ''inChain'') bs)
                          (toLocaleString L (clock s)) (mark ''inChain'' b)]\<rparr>"

definition reject_store :: "lib \<Rightarrow> store \<Rightarrow> block list \<Rightarrow> block \<Rightarrow> store" where
  "reject_store L s bs b =
     (rejectRecords s)
       \<lparr>clock := Suc (clock s),
        blocks := bs @ [(mark ''Rejected'' b)
                          \<lparr>status := ''Rejected'', timestamp := toLocaleString L (clock s)\<rparr>]\<rparr>"

text \<open>
  No block is lost or renumbered and no recorded vote is withdrawn between two lists of
  blocks.
\<close>

definition votes_kept :: "block list \<Rightarrow> block list \<Rightarrow> bool" where
  "votes_kept bs bs' =
     (length bs \<le> length bs' \<and>
      (\<forall>i<length bs. oid (bs' ! i) = oid (bs ! i) \<and>
         set (approvedBy (bs ! i)) \<subseteq> set (approvedBy (bs' ! i)) \<and>
         set (rejectedBy (bs ! i)) \<subseteq> set (rejectedBy (bs' ! i))))"

section \<open>Concrete stores used to instantiate the theorems\<close>

text \<open>
  A library instance for running the model on concrete stores: the digest is the
  identity, records are serialised by their content, every transaction is valid.
\<close>

definition demo_lib :: lib where
  "demo_lib =
     \<lparr>sha256_hex = (\<lambda>x. x), JSON_stringify = (\<lambda>rs. concat (map content rs)),
      checkTransactionValidity = (\<lambda>r. True),
      toLocaleString = (\<lambda>k. if k = 0 then ''t0'' else if k = 1 then ''t1'' else ''t2''),
      schema_blockId = 0, schema_prevHash = [], schema_hash = []\<rparr>"

definition demo_rcd :: "nat \<Rightarrow> rcd" where
  "demo_rcd k = \<lparr>rcd_id = k, rstatus = ''inBlock'', amount = None, content = ''r''\<rparr>"

definition demo_block :: "nat \<Rightarrow> string \<Rightarrow> rcd list \<Rightarrow> block" where
  "demo_block k st rs =
     \<lparr>oid = k, blockId = 0, prevHash = [], hash = [], timestamp = ''t'', status = st,
      records = rs, approvedBy = [], rejectedBy = []\<rparr>"

definition demo_store :: "block list \<Rightarrow> approvedRecord list \<Rightarrow> store" where
  "demo_store bs pool =
     \<lparr>blocks = bs, users = [], transactions = [], supplychains = [], approvedRecords = pool,
      nextOid = length bs, clock = 0\<rparr>"

definition demo_pool :: "approvedRecord list" where
  "demo_pool = [\<lparr>ar_id = 0, ar_records = demo_rcd 0\<rparr>, \<lparr>ar_id = 1, ar_records = demo_rcd 1\<rparr>]"

definition demo_users :: "user list" where
  "demo_users =
     [\<lparr>username = ''alice'', role = ''Validator''\<rparr>, \<lparr>username = ''bob'', role = ''Validator''\<rparr>,
      \<lparr>username = ''carol'', role = ''Validator''\<rparr>]"

definition demo_empty :: store where
  "demo_empty =
     \<lparr>blocks = [], users = demo_users,
      transactions = [demo_rcd 0, (demo_rcd 2)\<lparr>rstatus := ''Created''\<rparr>],
      supplychains = [demo_rcd 1], approvedRecords = demo_pool, nextOid = 0, clock = 0\<rparr>"

text \<open>
  The run used below: bootstrap, activation of the staging block, an approving vote by
  alice (one of three validators), then one by bob.
\<close>

definition demo_booted :: store where
  "demo_booted = snd (getBlockchain demo_lib demo_empty)"

definition demo_pending :: store where
  "demo_pending = snd (activateBlock demo_lib 1 demo_booted)"

definition demo_voted :: store where
  "demo_voted = snd (approveBlock demo_lib 1 True ''alice'' demo_pending)"

definition demo_committed :: store where
  "demo_committed = snd (approveBlock demo_lib 1 True ''bob'' demo_voted)"

definition demo_genesis :: block where
  "demo_genesis =
     \<lparr>oid = 0, blockId = 0, prevHash = [], hash = computeBlockHash demo_lib 0 [] ''t0'' [],
      timestamp = ''t0'', status = ''inChain'', records = [], approvedBy = [], rejectedBy = []\<rparr>"

definition demo_staged :: block where
  "demo_staged =
     \<lparr>oid = 1, blockId = 0, prevHash = [], hash = [], timestamp = ''t1'',
      status = ''Hibernating'', records = [demo_rcd 0, demo_rcd 1], approvedBy = [],
      rejectedBy = []\<rparr>"

definition demo_vote :: block where
  "demo_vote = demo_staged\<lparr>status := ''Pending'', timestamp := ''t2'', approvedBy := [''alice'']\<rparr>"

text \<open>
  The store left by an approval and a rejection of alice on the Pending block, both
  checked for an earlier vote before either is written.
\<close>

definition raced_votes :: store where
  "raced_votes =
     demo_pending\<lparr>blocks := [demo_genesis,
        demo_staged\<lparr>status := ''Pending'', timestamp := ''t2'', approvedBy := [''alice''],
                      rejectedBy := [''alice'']\<rparr>]\<rparr>"

text \<open>
  The run of two first \<^verbatim>\<open>getBlockchain\<close> requests that both find no chain before
  either creates the genesis block, followed by requests served one at a time: the
  activation of block 1 and the approvals of alice and bob.
\<close>

definition raced_booted :: store where
  "raced_booted =
     snd (getBlockchain_create demo_lib [] (snd (getBlockchain_create demo_lib [] demo_empty)))"

definition raced_pending :: store where
  "raced_pending = snd (activateBlock demo_lib 1 raced_booted)"

definition raced_voted :: store where
  "raced_voted = snd (approveBlock demo_lib 1 True ''alice'' raced_pending)"

definition raced_committed :: store where
  "raced_committed = snd (approveBlock demo_lib 1 True ''bob'' raced_voted)"

text \<open>The blocks these runs leave: a second genesis block, later staging blocks, committed blocks.\<close>

definition demo_genesis2 :: block where
  "demo_genesis2 =
     \<lparr>oid = 2, blockId = 0, prevHash = [], hash = computeBlockHash demo_lib 0 [] ''t2'' [],
      timestamp = ''t2'', status = ''inChain'', records = [], approvedBy = [], rejectedBy = []\<rparr>"

definition demo_staged2 :: "nat \<Rightarrow> rcd list \<Rightarrow> block" where
  "demo_staged2 k rs =
     \<lparr>oid = k, blockId = 0, prevHash = [], hash = [], timestamp = ''t2'',
      status = ''Hibernating'', records = rs, approvedBy = [], rejectedBy = []\<rparr>"

definition demo_chained :: "nat \<Rightarrow> block \<Rightarrow> rcd list \<Rightarrow> string list \<Rightarrow> block" where
  "demo_chained k p rs voters =
     \<lparr>oid = k, blockId = blockId p + 1, prevHash = hash p,
      hash = computeBlockHash demo_lib (blockId p + 1) (hash p) ''t2''
               (map (\<lambda>r. r\<lparr>rstatus := ''inChain''\<rparr>) rs),
      timestamp = ''t2'', status = ''inChain'',
      records = map (\<lambda>r. r\<lparr>rstatus := ''inChain''\<rparr>) rs,
      approvedBy = voters, rejectedBy = []\<rparr>"

text \<open>
  The run of two approvals in flight together that each reach the threshold. After
  alice's vote the pool receives four approved records. Bob and carol are both checked,
  both updates are written, and \<^verbatim>\<open>blockConsensus\<close> then runs for each on the block its
  update returned: both commit block 1 and each creates a staging block, 2 and 3. Served
  one at a time, block 3 is then activated and approved, and block 2 after it.
\<close>

definition demo_pool4 :: "approvedRecord list" where
  "demo_pool4 =
     [\<lparr>ar_id = 10, ar_records = demo_rcd 10\<rparr>, \<lparr>ar_id = 11, ar_records = demo_rcd 11\<rparr>,
      \<lparr>ar_id = 12, ar_records = demo_rcd 12\<rparr>, \<lparr>ar_id = 13, ar_records = demo_rcd 13\<rparr>]"

definition doc_bob :: block where
  "doc_bob = demo_staged\<lparr>status := ''Pending'', timestamp := ''t2'',
                approvedBy := [''alice'', ''bob'']\<rparr>"

definition doc_carol :: block where
  "doc_carol = demo_staged\<lparr>status := ''Pending'', timestamp := ''t2'',
                approvedBy := [''alice'', ''bob'', ''carol'']\<rparr>"

definition overlap_refilled :: store where
  "overlap_refilled = demo_voted\<lparr>approvedRecords := demo_pool4\<rparr>"

definition overlap_bob :: store where
  "overlap_bob = overlap_refilled\<lparr>blocks := [demo_genesis, doc_bob]\<rparr>"

definition overlap_carol :: store where
  "overlap_carol = overlap_refilled\<lparr>blocks := [demo_genesis, doc_carol]\<rparr>"

definition overlap_once :: store where
  "overlap_once = snd (blockConsensus demo_lib doc_bob 1 overlap_carol)"

definition overlap_twice :: store where
  "overlap_twice = snd (blockConsensus demo_lib doc_carol 1 overlap_once)"

definition overlap_pending3 :: store where
  "overlap_pending3 = snd (activateBlock demo_lib 3 overlap_twice)"

definition overlap_voted3 :: store where
  "overlap_voted3 = snd (approveBlock demo_lib 3 True ''alice'' overlap_pending3)"

definition overlap_committed3 :: store where
  "overlap_committed3 = snd (approveBlock demo_lib 3 True ''bob'' overlap_voted3)"

definition overlap_pending2 :: store where
  "overlap_pending2 = snd (activateBlock demo_lib 2 overlap_committed3)"

definition overlap_voted2 :: store where
  "overlap_voted2 = snd (approveBlock demo_lib 2 True ''alice'' overlap_pending2)"

definition overlap_final :: store where
  "overlap_final = snd (approveBlock demo_lib 2 True ''bob'' overlap_voted2)"

text \<open>The three committed blocks of that run, named by their \<open>blockId\<close>.\<close>

definition chained1 :: block where
  "chained1 = demo_chained 1 demo_genesis [demo_rcd 0, demo_rcd 1] [''alice'', ''bob'', ''carol'']"

definition chained2 :: block where
  "chained2 = demo_chained 3 chained1 [demo_rcd 12, demo_rcd 13] [''alice'', ''bob'']"

definition chained3 :: block where
  "chained3 = demo_chained 2 chained2 [demo_rcd 10, demo_rcd 11] [''alice'', ''bob'']"

definition overlap_base :: store where
  "overlap_base =
     demo_empty\<lparr>transactions := [(demo_rcd 0)\<lparr>rstatus := ''inChain''\<rparr>,
                                   (demo_rcd 2)\<lparr>rstatus := ''Created''\<rparr>],
       supplychains := [(demo_rcd 1)\<lparr>rstatus := ''inChain''\<rparr>], approvedRecords := []\<rparr>"

section \<open>Lemmas on the primitives\<close>

lemma findOne_None_iff: "findOne P xs = None \<longleftrightarrow> (\<forall>x\<in>set xs. \<not> P x)"
  by (induction xs) auto

lemma findOne_SomeD: "findOne P xs = Some x \<Longrightarrow> x \<in> set xs \<and> P x"
  by (induction xs) (auto split: if_splits)

lemma findOneAndUpdate_fst: "fst (findOneAndUpdate P f xs) = map_option f (findOne P xs)"
  by (induction xs) (auto split: prod.splits)

lemma findOneAndUpdate_None: "findOne P xs = None \<Longrightarrow> findOneAndUpdate P f xs = (None, xs)"
  by (induction xs) (auto split: prod.splits if_splits)

lemma findOneAndUpdate_length: "length (snd (findOneAndUpdate P f xs)) = length xs"
  by (induction xs) (auto split: prod.splits)

lemma findOneAndUpdate_append_last:
  "\<forall>x\<in>set xs. \<not> P x \<Longrightarrow>
   findOneAndUpdate P f (xs @ [b]) = (if P b then (Some (f b), xs @ [f b]) else (None, xs @ [b]))"
  by (induction xs) auto

lemma findOneAndUpdate_middle:
  "\<forall>x\<in>set xs. \<not> P x \<Longrightarrow> P b \<Longrightarrow>
   findOneAndUpdate P f (xs @ b # ys) = (Some (f b), xs @ f b # ys)"
  by (induction xs) auto

lemma findOne_distinct_oid:
  "distinct (map oid xs) \<Longrightarrow> b \<in> set xs \<Longrightarrow> findOne (\<lambda>d. oid d = oid b) xs = Some b"
  by (induction xs) auto

lemma hibernate_loop_0:
  "hibernate_loop record 0 [] s =
     (case record of
        [] \<Rightarrow> (Inl TypeError, s)
      | [a] \<Rightarrow>
          (Inl TypeError,
           s\<lparr>approvedRecords := deleteOne (\<lambda>d. ar_id d = ar_id a) (approvedRecords s)\<rparr>)
      | a # b # _ \<Rightarrow>
          (Inr [ar_records a, ar_records b],
           s\<lparr>approvedRecords :=
                deleteOne (\<lambda>d. ar_id d = ar_id b)
                  (deleteOne (\<lambda>d. ar_id d = ar_id a) (approvedRecords s))\<rparr>))"
proof -
  have two: "\<And>r a s. hibernate_loop r (Suc (Suc 0)) a s = (Inr a, s)"
    by (simp add: hibernate_loop.simps MAX_RECORD_def)
  have one: "\<And>r a s. hibernate_loop r (Suc 0) a s =
      (if 1 < length r then
         hibernate_loop r (Suc (Suc 0)) (a @ [ar_records (r ! 1)])
           (s\<lparr>approvedRecords :=
                deleteOne (\<lambda>d. ar_id d = ar_id (r ! 1)) (approvedRecords s)\<rparr>)
       else (Inl TypeError, s))"
    by (subst hibernate_loop.simps) (simp add: MAX_RECORD_def numeral_2_eq_2)
  show ?thesis
    by (subst hibernate_loop.simps) (simp add: one two MAX_RECORD_def split: list.splits)
qed

lemma createHibernateBlock_effect:
  assumes "createHibernateBlock L s = (r, s')"
  shows "users s' = users s \<and> transactions s' = transactions s \<and>
         supplychains s' = supplychains s \<and>
         ((r = Inl TypeError \<and> length (approvedRecords s) = 1 \<and> blocks s' = blocks s \<and>
           nextOid s' = nextOid s \<and> approvedRecords s' = [])
          \<or> (length (approvedRecords s) \<noteq> 1 \<and>
              (\<exists>hb. r = Inr hb \<and> blocks s' = blocks s @ [hb] \<and> oid hb = nextOid s \<and>
                 nextOid s' = Suc (nextOid s) \<and> status hb = ''Hibernating'' \<and>
                 approvedBy hb = [] \<and> rejectedBy hb = [] \<and>
                 records hb = map ar_records (take 2 (approvedRecords s)))))"
  using assms
  by (cases "approvedRecords s"; cases "tl (approvedRecords s)")
     (auto simp: createHibernateBlock_def hibernate_loop_0 new_Date_def BlockModel_create_def
           Let_def schema_block_def split: list.splits prod.splits)

section \<open>The chain validator\<close>

lemma validateBlockRecords_iff:
  "validateBlockRecords L rs \<longleftrightarrow> (\<forall>r\<in>set rs. amount r \<noteq> None \<longrightarrow> checkTransactionValidity L r)"
  by (induction rs) auto

lemma validateBlocks_from_step:
  "i < length bs \<Longrightarrow>
   validateBlocks_from L bs i \<longleftrightarrow>
     (hash (bs ! i) = computeBlockHash L (blockId (bs ! i)) (prevHash (bs ! i)) (timestamp (bs ! i)) (records (bs ! i)) \<and>
      (if i = 0 then prevHash (bs ! i) = [] else prevHash (bs ! i) = hash (bs ! (i - 1))) \<and>
      validateBlockRecords L (records (bs ! i)) \<and>
      validateBlocks_from L bs (Suc i))"
  by (subst validateBlocks_from.simps) (auto simp: Let_def)

lemma validateBlocks_from_end: "\<not> i < length bs \<Longrightarrow> validateBlocks_from L bs i"
  by (subst validateBlocks_from.simps) simp

lemma all_from_split:
  "(\<forall>j. i \<le> j \<and> j < n \<longrightarrow> P j) \<longleftrightarrow> ((i < n \<longrightarrow> P i) \<and> (\<forall>j. Suc i \<le> j \<and> j < n \<longrightarrow> P j))"
  by (metis Suc_leI Suc_le_lessD le_eq_less_or_eq le_trans order_refl less_imp_le_nat)

lemma validateBlocks_from_iff:
  "validateBlocks_from L bs i \<longleftrightarrow>
     (\<forall>j. i \<le> j \<and> j < length bs \<longrightarrow>
        hash (bs ! j) = computeBlockHash L (blockId (bs ! j)) (prevHash (bs ! j)) (timestamp (bs ! j)) (records (bs ! j)) \<and>
        (if j = 0 then prevHash (bs ! j) = [] else prevHash (bs ! j) = hash (bs ! (j - 1))) \<and>
        validateBlockRecords L (records (bs ! j)))"
proof (induction "length bs - i" arbitrary: i)
  case 0
  then have "\<not> i < length bs" by simp
  then show ?case by (auto simp: validateBlocks_from_end)
next
  case (Suc n)
  then have lt: "i < length bs" and n: "n = length bs - Suc i" by simp_all
  show ?case
    unfolding validateBlocks_from_step [OF lt] Suc.hyps(1) [OF n]
    by (subst (2) all_from_split) (use lt in blast)
qed

lemma validateBlocks_iff:
  "validateBlocks L bs \<longleftrightarrow>
     (bs \<noteq> [] \<longrightarrow> prevHash (bs ! 0) = []) \<and>
     (\<forall>j < length bs.
        hash (bs ! j) = computeBlockHash L (blockId (bs ! j)) (prevHash (bs ! j)) (timestamp (bs ! j)) (records (bs ! j)) \<and>
        (\<forall>r\<in>set (records (bs ! j)). amount r \<noteq> None \<longrightarrow> checkTransactionValidity L r)) \<and>
     (\<forall>j. 0 < j \<and> j < length bs \<longrightarrow> prevHash (bs ! j) = hash (bs ! (j - 1)))"
  unfolding validateBlocks_def validateBlocks_from_iff validateBlockRecords_iff
proof (intro iffI conjI allI impI, goal_cases)
  case 1
  then show ?case by (auto dest!: spec [of _ 0])
next
  case (2 j)
  then show ?case by (auto dest!: spec [of _ j])
next
  case (3 j)
  then show ?case by (auto dest!: spec [of _ j])
next
  case (4 j)
  then show ?case by (cases "j = 0") auto
next
  case (5 j)
  then show ?case by (cases "j = 0") auto
next
  case (6 j)
  then show ?case by (cases "j = 0") auto
next
  case (7 j)
  then show ?case by blast
qed

section \<open>Decimal digits\<close>

lemma digit_char_inj: "a < 10 \<Longrightarrow> b < 10 \<Longrightarrow> digit_char a = digit_char b \<Longrightarrow> a = b"
  by (simp add: digit_char_def)

lemma digit_char_not_minus: "a < 10 \<Longrightarrow> digit_char a \<noteq> CHR ''-''"
  by (simp add: digit_char_def char_of_eq_iff take_bit_eq_mod)

lemma dec_small: "n < 10 \<Longrightarrow> dec n = [digit_char n]"
  by (subst dec.simps) simp

lemma dec_large: "\<not> n < 10 \<Longrightarrow> dec n = dec (n div 10) @ [digit_char (n mod 10)]"
  by (subst dec.simps) simp

lemma dec_not_Nil: "dec n \<noteq> []"
  by (cases "n < 10") (simp_all add: dec_small dec_large)

lemma dec_hd: "hd (dec n) \<noteq> CHR ''-''"
proof (induction n rule: dec.induct)
  case (1 n)
  show ?case
  proof (cases "n < 10")
    case True
    then show ?thesis by (simp add: dec_small digit_char_not_minus)
  next
    case False
    with 1 show ?thesis by (simp add: dec_large dec_not_Nil)
  qed
qed

lemma dec_inj: "dec m = dec n \<Longrightarrow> m = n"
proof (induction m arbitrary: n rule: dec.induct)
  case (1 m)
  show ?case
  proof (cases "m < 10")
    case m: True
    show ?thesis
    proof (cases "n < 10")
      case True
      with m "1.prems" show ?thesis by (simp add: dec_small digit_char_inj)
    next
      case False
      with m "1.prems" show ?thesis by (simp add: dec_small dec_large dec_not_Nil dec_not_Nil [THEN not_sym])
    qed
  next
    case m: False
    show ?thesis
    proof (cases "n < 10")
      case True
      with m "1.prems" show ?thesis by (simp add: dec_small dec_large dec_not_Nil dec_not_Nil [THEN not_sym])
    next
      case False
      with m "1.prems" have "dec (m div 10) = dec (n div 10)" "digit_char (m mod 10) = digit_char (n mod 10)"
        by (simp_all add: dec_large)
      then have "m div 10 = n div 10" "m mod 10 = n mod 10"
        using "1.IH" [OF m] by (auto intro: digit_char_inj)
      then show ?thesis by (metis div_mult_mod_eq)
    qed
  qed
qed

lemma toString_inj: "toString i = toString j \<Longrightarrow> i = j"
proof -
  assume eq: "toString i = toString j"
  have neg: "\<And>a b. CHR ''-'' # dec a \<noteq> dec b"
    using dec_hd dec_not_Nil by (metis list.sel(1))
  show ?thesis
  proof (cases "i < 0"; cases "j < 0")
    assume "i < 0" "j < 0"
    with eq have "nat (- i) = nat (- j)" by (simp add: toString_def dec_inj)
    with \<open>i < 0\<close> \<open>j < 0\<close> show ?thesis by simp
  next
    assume "i < 0" "\<not> j < 0"
    with eq neg show ?thesis by (simp add: toString_def)
  next
    assume "\<not> i < 0" "j < 0"
    with eq neg [of "nat (- j)" "nat i"] show ?thesis by (simp add: toString_def)
  next
    assume "\<not> i < 0" "\<not> j < 0"
    with eq have "nat i = nat j" by (simp add: toString_def dec_inj)
    with \<open>\<not> i < 0\<close> \<open>\<not> j < 0\<close> show ?thesis by simp
  qed
qed

section \<open>Tampering with one block of a list\<close>

lemma computeBlockHash_text:
  "computeBlockHash L (blockId b) (prevHash b) (timestamp b) (records b) = sha256_hex L (block_text L b)"
  by (simp add: computeBlockHash_def block_text_def)

lemma tamper_list:
  assumes valid: "validateBlocks L bs"
      and k: "k < length bs"
      and change:
        "(\<exists>v. v \<noteq> blockId (bs ! k) \<and> b' = (bs ! k)\<lparr>blockId := v\<rparr>) \<or>
         (\<exists>v. v \<noteq> prevHash (bs ! k) \<and> b' = (bs ! k)\<lparr>prevHash := v\<rparr>) \<or>
         (\<exists>v. v \<noteq> timestamp (bs ! k) \<and> b' = (bs ! k)\<lparr>timestamp := v\<rparr>) \<or>
         (\<exists>v. v \<noteq> hash (bs ! k) \<and> b' = (bs ! k)\<lparr>hash := v\<rparr>) \<or>
         (\<exists>v. v \<noteq> records (bs ! k) \<and> b' = (bs ! k)\<lparr>records := v\<rparr>)"
      and no_collision:
        "sha256_hex L (block_text L b') = sha256_hex L (block_text L (bs ! k)) \<longrightarrow>
         block_text L b' = block_text L (bs ! k)"
      and json:
        "JSON_stringify L (records b') = JSON_stringify L (records (bs ! k)) \<longrightarrow>
         records b' = records (bs ! k)"
  shows "\<not> validateBlocks L (bs[k := b'])"
proof
  assume v': "validateBlocks L (bs[k := b'])"
  let ?b = "bs ! k"
  from valid k have h: "hash ?b = sha256_hex L (block_text L ?b)"
    unfolding validateBlocks_iff computeBlockHash_text by blast
  from v' k have h': "hash b' = sha256_hex L (block_text L b')"
    unfolding validateBlocks_iff computeBlockHash_text by (auto dest!: spec [of _ k])
  have p: "prevHash b' = prevHash ?b"
  proof (cases "k = 0")
    case True
    with valid k have "prevHash ?b = []"
      unfolding validateBlocks_iff by auto
    moreover from v' k True have "prevHash b' = []"
      unfolding validateBlocks_iff by auto
    ultimately show ?thesis by simp
  next
    case False
    with valid k have "prevHash ?b = hash (bs ! (k - 1))"
      unfolding validateBlocks_iff by auto
    moreover from v' k False have "prevHash b' = hash (bs ! (k - 1))"
      unfolding validateBlocks_iff by (auto dest!: spec [of _ k])
    ultimately show ?thesis by simp
  qed
  have same_text: "hash b' = hash ?b \<Longrightarrow> block_text L b' = block_text L ?b"
    using h h' no_collision by simp
  from change show False
  proof (elim disjE exE conjE)
    fix v assume "v \<noteq> blockId ?b" "b' = ?b\<lparr>blockId := v\<rparr>"
    with same_text show False by (auto simp: block_text_def dest: toString_inj)
  next
    fix v assume "v \<noteq> prevHash ?b" "b' = ?b\<lparr>prevHash := v\<rparr>"
    with p show False by simp
  next
    fix v assume "v \<noteq> timestamp ?b" "b' = ?b\<lparr>timestamp := v\<rparr>"
    with same_text show False by (auto simp: block_text_def)
  next
    fix v assume "v \<noteq> hash ?b" "b' = ?b\<lparr>hash := v\<rparr>"
    with h h' show False by (auto simp: block_text_def)
  next
    fix v assume "v \<noteq> records ?b" "b' = ?b\<lparr>records := v\<rparr>"
    with same_text json show False by (auto simp: block_text_def)
  qed
qed

text \<open>A changed \<open>hash\<close> or \<open>prevHash\<close> is detected whatever the digest function is.\<close>

lemma tamper_link:
  assumes valid: "validateBlocks L bs"
      and k: "k < length bs"
      and change:
        "(\<exists>v. v \<noteq> prevHash (bs ! k) \<and> b' = (bs ! k)\<lparr>prevHash := v\<rparr>) \<or>
         (\<exists>v. v \<noteq> hash (bs ! k) \<and> b' = (bs ! k)\<lparr>hash := v\<rparr>)"
  shows "\<not> validateBlocks L (bs[k := b'])"
proof
  assume v': "validateBlocks L (bs[k := b'])"
  let ?b = "bs ! k"
  from valid k have h: "hash ?b = sha256_hex L (block_text L ?b)"
    unfolding validateBlocks_iff computeBlockHash_text by blast
  from v' k have h': "hash b' = sha256_hex L (block_text L b')"
    unfolding validateBlocks_iff computeBlockHash_text by (auto dest!: spec [of _ k])
  have p: "prevHash b' = prevHash ?b"
  proof (cases "k = 0")
    case True
    with valid k have "prevHash ?b = []"
      unfolding validateBlocks_iff by auto
    moreover from v' k True have "prevHash b' = []"
      unfolding validateBlocks_iff by auto
    ultimately show ?thesis by simp
  next
    case False
    with valid k have "prevHash ?b = hash (bs ! (k - 1))"
      unfolding validateBlocks_iff by auto
    moreover from v' k False have "prevHash b' = hash (bs ! (k - 1))"
      unfolding validateBlocks_iff by (auto dest!: spec [of _ k])
    ultimately show ?thesis by simp
  qed
  from change show False
  proof (elim disjE exE conjE)
    fix v assume "v \<noteq> prevHash ?b" "b' = ?b\<lparr>prevHash := v\<rparr>"
    with p show False by simp
  next
    fix v assume "v \<noteq> hash ?b" "b' = ?b\<lparr>hash := v\<rparr>"
    with h h' show False by (auto simp: block_text_def)
  qed
qed

lemma filter_list_update:
  "k < length xs \<Longrightarrow> P (xs ! k) \<Longrightarrow> P y \<Longrightarrow>
   filter P (xs[k := y]) = (filter P xs)[length (filter P (take k xs)) := y] \<and>
   length (filter P (take k xs)) < length (filter P xs) \<and>
   filter P xs ! length (filter P (take k xs)) = xs ! k"
proof (induction xs arbitrary: k)
  case Nil
  then show ?case by simp
next
  case (Cons x xs)
  then show ?case by (cases k) auto
qed

section \<open>Linked chains\<close>

lemma insort_key_last:
  "\<forall>y\<in>set ys. f y < f x \<Longrightarrow> insort_key f x ys = ys @ [x]"
  by (induction ys) auto

lemma sort_key_desc_rev:
  "sorted_wrt (\<lambda>a b. blockId a < blockId b) c \<Longrightarrow> sort_key (\<lambda>d. - blockId d) c = rev c"
proof (induction c)
  case Nil
  then show ?case by simp
next
  case (Cons x xs)
  then have "sort_key (\<lambda>d. - blockId d) xs = rev xs" by simp
  moreover from Cons.prems have "\<forall>y\<in>set (rev xs). - blockId y < - blockId x" by auto
  ultimately show ?case by (simp add: insort_key_last)
qed

lemma linked_sorted:
  assumes "linked L c"
  shows "sorted_wrt (\<lambda>a b. blockId a < blockId b) c"
proof -
  from assms have m: "map blockId c = map int [0..<length c]"
    by (simp add: linked_def)
  have "sorted_wrt (<) (map int [0..<length c])"
    by (simp add: sorted_wrt_map sorted_wrt_upt del: upt.simps)
  then have "sorted_wrt (<) (map blockId c)"
    by (simp only: m)
  then show ?thesis
    by (simp add: sorted_wrt_map)
qed

lemma linked_last_blockId:
  assumes "linked L c" "c \<noteq> []"
  shows "blockId (last c) = int (length c) - 1"
proof -
  from assms have m: "map blockId c = map int [0..<length c]"
    by (simp add: linked_def)
  have "blockId (last c) = last (map blockId c)"
    using assms(2) by (simp add: last_map)
  also have "\<dots> = last (map int [0..<length c])"
    by (simp only: m)
  also have "\<dots> = int (length c) - 1"
    using assms(2) by (cases c rule: rev_cases) (simp_all del: upt.simps add: last_map)
  finally show ?thesis .
qed

lemma linked_latest:
  assumes "linked L c" "c \<noteq> []"
  shows "sort_key (\<lambda>d. - blockId d) c = last c # rev (butlast c)"
  using sort_key_desc_rev [OF linked_sorted [OF assms(1)]] assms(2)
  by (cases c rule: rev_cases) simp_all

lemma linked_snoc:
  assumes "linked L c" "c \<noteq> []"
      and "blockId b = blockId (last c) + 1"
      and "prevHash b = hash (last c)"
      and "hash b = computeBlockHash L (blockId b) (prevHash b) (timestamp b) (records b)"
  shows "linked L (c @ [b])"
proof -
  from linked_last_blockId [OF assms(1,2)] assms(3) have bid: "blockId b = int (length c)"
    by simp
  from assms(1) have m: "map blockId c = map int [0..<length c]"
    and p0: "prevHash (c ! 0) = []"
    and link: "\<forall>i. 0 < i \<and> i < length c \<longrightarrow> prevHash (c ! i) = hash (c ! (i - 1))"
    and hs: "\<forall>b\<in>set c. hash b = computeBlockHash L (blockId b) (prevHash b) (timestamp b) (records b)"
    using assms(2) by (simp_all add: linked_def)
  have 1: "map blockId (c @ [b]) = map int [0..<length (c @ [b])]"
    using m bid by simp
  have 2: "prevHash ((c @ [b]) ! 0) = []"
    using p0 assms(2) by (simp add: nth_append)
  have 3: "\<forall>i. 0 < i \<and> i < length (c @ [b]) \<longrightarrow> prevHash ((c @ [b]) ! i) = hash ((c @ [b]) ! (i - 1))"
  proof (intro allI impI)
    fix i assume i: "0 < i \<and> i < length (c @ [b])"
    show "prevHash ((c @ [b]) ! i) = hash ((c @ [b]) ! (i - 1))"
    proof (cases "i < length c")
      case True
      then have "i - 1 < length c" by simp
      with True i link show ?thesis by (auto simp: nth_append)
    next
      case False
      with i have "i = length c" by simp
      with assms(2,4) show ?thesis by (simp add: nth_append last_conv_nth)
    qed
  qed
  have 4: "\<forall>x\<in>set (c @ [b]). hash x = computeBlockHash L (blockId x) (prevHash x) (timestamp x) (records x)"
    using hs assms(5) by auto
  show ?thesis
    unfolding linked_def using 1 2 3 4 by blast
qed

lemma linked_genesis:
  "blockId g = 0 \<Longrightarrow> prevHash g = [] \<Longrightarrow>
   hash g = computeBlockHash L (blockId g) (prevHash g) (timestamp g) (records g) \<Longrightarrow> linked L [g]"
  by (simp add: linked_def)

lemma setStatus_loop_0:
  "setStatus_loop st recs 0 =
     (if length recs < 2 then Inl TypeError
      else Inr (recs[0 := (recs ! 0)\<lparr>rstatus := st\<rparr>, 1 := (recs ! 1)\<lparr>rstatus := st\<rparr>]))"
proof -
  have two: "\<And>r. setStatus_loop st r (Suc (Suc 0)) = Inr r"
    by (simp add: setStatus_loop.simps MAX_RECORD_def)
  have one: "\<And>r. setStatus_loop st r (Suc 0) =
      (if 1 < length r then setStatus_loop st (r[1 := (r ! 1)\<lparr>rstatus := st\<rparr>]) (Suc (Suc 0))
       else Inl TypeError)"
    by (subst setStatus_loop.simps) (simp add: MAX_RECORD_def numeral_2_eq_2)
  show ?thesis
    by (subst setStatus_loop.simps) (auto simp: one two MAX_RECORD_def)
qed

lemma setStatus_loop_pair:
  "length recs = 2 \<Longrightarrow> setStatus_loop st recs 0 = Inr (map (\<lambda>r. r\<lparr>rstatus := st\<rparr>) recs)"
  by (cases recs; cases "tl recs") (auto simp: setStatus_loop_0)

section \<open>Writes to the last block\<close>

lemma save_records_last:
  assumes "blocks s = bs @ [b]" "\<forall>x\<in>set bs. oid x \<noteq> oid b" "oid b' = oid b"
  shows "save_records b' s = s\<lparr>blocks := bs @ [b\<lparr>records := records b'\<rparr>]\<rparr>"
  using assms by (simp add: save_records_def findOneAndUpdate_append_last)

lemma updateRecordsStatusInBlock_last:
  assumes "blocks s = bs @ [b]" "\<forall>x\<in>set bs. oid x \<noteq> oid b" "length (records b) = 2"
  shows "updateRecordsStatusInBlock b s =
           (Inr (b\<lparr>records := map (\<lambda>r. r\<lparr>rstatus := ''inChain''\<rparr>) (records b)\<rparr>),
            s\<lparr>blocks := bs @ [b\<lparr>records := map (\<lambda>r. r\<lparr>rstatus := ''inChain''\<rparr>) (records b)\<rparr>]\<rparr>)"
  using assms
  by (simp add: updateRecordsStatusInBlock_def setStatus_loop_pair save_records_last [where b = b and bs = bs] Let_def)

lemma rejectRecordsStatusInBlock_last:
  assumes "blocks s = bs @ [b]" "\<forall>x\<in>set bs. oid x \<noteq> oid b" "length (records b) = 2"
  shows "rejectRecordsStatusInBlock b s =
           (Inr (b\<lparr>records := map (\<lambda>r. r\<lparr>rstatus := ''Rejected''\<rparr>) (records b)\<rparr>),
            s\<lparr>blocks := bs @ [b\<lparr>records := map (\<lambda>r. r\<lparr>rstatus := ''Rejected''\<rparr>) (records b)\<rparr>]\<rparr>)"
  using assms
  by (simp add: rejectRecordsStatusInBlock_def setStatus_loop_pair save_records_last [where b = b and bs = bs] Let_def)

lemma appendToBlockchain_last:
  assumes bl: "blocks s = bs @ [b]" and st: "status b = ''Approved''" and ident: "oid b = ident"
      and others: "\<forall>x\<in>set bs. oid x \<noteq> ident"
      and c: "filter (\<lambda>d. status d = ''inChain'') bs = c" "linked L c" "c \<noteq> []"
  shows "appendToBlockchain L b ident s =
           (case createHibernateBlock L
                   (s\<lparr>clock := Suc (clock s),
                      blocks := bs @ [committed L c (toLocaleString L (clock s)) b]\<rparr>) of
              (Inl e, s3) \<Rightarrow> (Inl e, s3)
            | (Inr _, s3) \<Rightarrow> (Inr (Some (committed L c (toLocaleString L (clock s)) b)), s3))"
proof -
  have f: "filter (\<lambda>d. status d = ''inChain'') (blocks s) = c"
    using bl st c(1) by simp
  have upd: "\<And>f. findOneAndUpdate (\<lambda>d. oid d = ident \<and> status d = ''Approved'') f (bs @ [b]) =
      (Some (f b), bs @ [f b])"
    using others st ident by (simp add: findOneAndUpdate_append_last)
  show ?thesis
    unfolding appendToBlockchain_def f linked_latest [OF c(2,3)] committed_def
    by (simp add: new_Date_def bl upd Let_def)
qed

lemma snd_case_result:
  "snd (case p of (Inl e, s3) \<Rightarrow> (Inl e, s3) | (Inr x, s3) \<Rightarrow> (Inr (g x), s3)) = snd p"
  by (cases p) (auto split: sum.splits)

lemma snd_case_result2:
  "snd (case p of (Inl e, s3) \<Rightarrow> (Inl e, s3) | (Inr x, s3) \<Rightarrow> (Inr y, s3)) = snd p"
  by (cases p) (auto split: sum.splits)

lemma blockConsensus_last:
  assumes bl: "blocks s = bs @ [b]" and st: "status b = ''Pending''" and ident: "oid b = ident"
      and others: "\<forall>x\<in>set bs. oid x \<noteq> ident"
      and recs: "length (records b) = 2"
      and c: "linked L (filter (\<lambda>d. status d = ''inChain'') bs)"
             "filter (\<lambda>d. status d = ''inChain'') bs \<noteq> []"
  shows "snd (blockConsensus L b ident s) =
           (if approve_reached s b then snd (createHibernateBlock L (approve_store L s bs b))
            else if reject_reached s b then snd (createHibernateBlock L (reject_store L s bs b))
            else s)"
proof -
  have upd: "\<And>f. findOneAndUpdate (\<lambda>d. oid d = ident) f (bs @ [b]) = (Some (f b), bs @ [f b])"
    using others ident by (simp add: findOneAndUpdate_append_last)
  have o2: "\<forall>x\<in>set bs. oid x \<noteq> oid b"
    using others ident by simp
  show ?thesis
  proof (cases "approve_reached s b")
    case True
    let ?s1 = "updateRecordsStatus (s\<lparr>blocks := bs @ [b\<lparr>status := ''Approved''\<rparr>]\<rparr>)"
    have b1: "blocks ?s1 = bs @ [b\<lparr>status := ''Approved''\<rparr>]"
      by (simp add: updateRecordsStatus_def)
    have u: "updateRecordsStatusInBlock (b\<lparr>status := ''Approved''\<rparr>) ?s1 =
               (Inr (mark ''inChain'' (b\<lparr>status := ''Approved''\<rparr>)),
                ?s1\<lparr>blocks := bs @ [mark ''inChain'' (b\<lparr>status := ''Approved''\<rparr>)]\<rparr>)"
      using updateRecordsStatusInBlock_last [OF b1] o2 recs by (simp add: mark_def)
    have a: "snd (appendToBlockchain L (mark ''inChain'' (b\<lparr>status := ''Approved''\<rparr>)) ident
               (?s1\<lparr>blocks := bs @ [mark ''inChain'' (b\<lparr>status := ''Approved''\<rparr>)]\<rparr>)) =
             snd (createHibernateBlock L (approve_store L s bs b))"
      by (subst appendToBlockchain_last [where bs = bs and c = "filter (\<lambda>d. status d = ''inChain'') bs"])
         (use ident others c in \<open>simp_all add: mark_def snd_case_result2 approve_store_def
            updateRecordsStatus_def committed_def\<close>)
    from True show ?thesis
      by (simp add: blockConsensus_def st approve_reached_def validators_def Let_def bl upd u a)
  next
    case False
    show ?thesis
    proof (cases "reject_reached s b")
      case True
      let ?ts = "toLocaleString L (clock s)"
      let ?b1 = "b\<lparr>status := ''Rejected'', timestamp := ?ts\<rparr>"
      let ?s1 = "rejectRecords (s\<lparr>clock := Suc (clock s), blocks := bs @ [?b1]\<rparr>)"
      have b1: "blocks ?s1 = bs @ [?b1]"
        by (simp add: rejectRecords_def)
      have u: "rejectRecordsStatusInBlock ?b1 ?s1 =
                 (Inr (mark ''Rejected'' ?b1), ?s1\<lparr>blocks := bs @ [mark ''Rejected'' ?b1]\<rparr>)"
        using rejectRecordsStatusInBlock_last [OF b1] o2 recs by (simp add: mark_def)
      have e: "?s1\<lparr>blocks := bs @ [mark ''Rejected'' ?b1]\<rparr> = reject_store L s bs b"
        by (simp add: reject_store_def rejectRecords_def mark_def)
      from True False show ?thesis
        by (simp add: blockConsensus_def st approve_reached_def reject_reached_def validators_def
              Let_def new_Date_def bl upd u e snd_case_result2)
    next
      case r: False
      with False show ?thesis
        by (simp add: blockConsensus_def st approve_reached_def reject_reached_def validators_def Let_def)
    qed
  qed
qed

section \<open>The invariant is kept\<close>

lemma approveBlock_last:
  assumes bl: "blocks s = bs @ [b]" and st: "status b = ''Pending''" and ident: "oid b = ident"
      and others: "\<forall>x\<in>set bs. oid x \<noteq> ident"
      and fresh: "uname \<notin> set (approvedBy b)" "uname \<notin> set (rejectedBy b)"
      and recs: "length (records b) = 2"
      and c: "linked L (filter (\<lambda>d. status d = ''inChain'') bs)"
             "filter (\<lambda>d. status d = ''inChain'') bs \<noteq> []"
  shows "snd (approveBlock L ident isApproved uname s) =
           (let b1 = addToSet_vote isApproved uname b; s1 = s\<lparr>blocks := bs @ [b1]\<rparr>
            in if approve_reached s b1 then snd (createHibernateBlock L (approve_store L s1 bs b1))
               else if reject_reached s b1 then snd (createHibernateBlock L (reject_store L s1 bs b1))
               else s1)"
proof -
  let ?b1 = "addToSet_vote isApproved uname b"
  let ?s1 = "s\<lparr>blocks := bs @ [?b1]\<rparr>"
  have dup: "findOne (\<lambda>d. oid d = ident \<and> (uname \<in> set (approvedBy d) \<or> uname \<in> set (rejectedBy d)))
               (blocks s) = None"
    using bl others fresh by (auto simp: findOne_None_iff)
  have upd: "findOneAndUpdate (\<lambda>d. oid d = ident \<and> status d = ''Pending'')
               (addToSet_vote isApproved uname) (blocks s) = (Some ?b1, bs @ [?b1])"
    using bl others st ident by (simp add: findOneAndUpdate_append_last)
  have b1: "status ?b1 = ''Pending''" "oid ?b1 = ident" "length (records ?b1) = 2"
    using st ident recs by (simp_all add: addToSet_vote_def)
  have r: "approve_reached ?s1 ?b1 = approve_reached s ?b1" "reject_reached ?s1 ?b1 = reject_reached s ?b1"
    by (simp_all add: approve_reached_def reject_reached_def validators_def)
  have bc: "snd (blockConsensus L ?b1 ident ?s1) =
           (if approve_reached s ?b1 then snd (createHibernateBlock L (approve_store L ?s1 bs ?b1))
            else if reject_reached s ?b1 then snd (createHibernateBlock L (reject_store L ?s1 bs ?b1))
            else ?s1)"
    using blockConsensus_last [where s = ?s1 and b = ?b1 and bs = bs and L = L and ident = ident]
      b1 others c by (simp add: r)
  have "snd (approveBlock L ident isApproved uname s) = snd (blockConsensus L ?b1 ident ?s1)"
    unfolding approveBlock_def dup upd by (simp split: prod.splits sum.splits)
  then show ?thesis
    by (simp only: bc Let_def)
qed

lemma store_inv_cong:
  "blocks s' = blocks s \<Longrightarrow> nextOid s' = nextOid s \<Longrightarrow> store_inv L s' = store_inv L s"
  by (simp add: store_inv_def chain_def)

lemma store_invI:
  assumes "linked L (chain s)" "blocks s \<noteq> [] \<longrightarrow> chain s \<noteq> []"
    "\<forall>b\<in>set (butlast (blocks s)). final b" "distinct (map oid (blocks s))"
    "\<forall>b\<in>set (blocks s). oid b < nextOid s"
    "\<forall>b\<in>set (blocks s). status b = ''Pending'' \<longrightarrow> length (records b) = 2"
    "\<forall>b\<in>set (blocks s). distinct (approvedBy b @ rejectedBy b)"
  shows "store_inv L s"
  unfolding store_inv_def using assms by blast

lemma store_invD:
  assumes "store_inv L s"
  shows "linked L (chain s)" "blocks s \<noteq> [] \<longrightarrow> chain s \<noteq> []"
    "\<forall>b\<in>set (butlast (blocks s)). final b" "distinct (map oid (blocks s))"
    "\<forall>b\<in>set (blocks s). oid b < nextOid s"
    "\<forall>b\<in>set (blocks s). status b = ''Pending'' \<longrightarrow> length (records b) = 2"
    "\<forall>b\<in>set (blocks s). distinct (approvedBy b @ rejectedBy b)"
  using assms unfolding store_inv_def by blast+

lemma store_inv_replace_last:
  assumes inv: "store_inv L s" and bl: "blocks s = bs @ [b]" and bl': "blocks s' = bs @ [b']"
      and n: "nextOid s' = nextOid s" and o: "oid b' = oid b" and nc: "status b \<noteq> ''inChain''"
      and votes: "distinct (approvedBy b' @ rejectedBy b')"
      and pend: "status b' = ''Pending'' \<longrightarrow> length (records b') = 2"
      and ch: "status b' = ''inChain'' \<longrightarrow>
                 blockId b' = blockId (last (filter (\<lambda>d. status d = ''inChain'') bs)) + 1 \<and>
                 prevHash b' = hash (last (filter (\<lambda>d. status d = ''inChain'') bs)) \<and>
                 hash b' = computeBlockHash L (blockId b') (prevHash b') (timestamp b') (records b')"
  shows "store_inv L s'"
proof (rule store_invI)
  let ?c = "filter (\<lambda>d. status d = ''inChain'') bs"
  note d = store_invD [OF inv]
  have cs: "chain s = ?c"
    using nc by (simp add: chain_def bl)
  from d(1,2) have c: "linked L ?c" "?c \<noteq> []"
    by (simp_all add: cs bl)
  show "linked L (chain s')"
  proof (cases "status b' = ''inChain''")
    case True
    with ch linked_snoc [OF c, of b'] show ?thesis by (simp add: chain_def bl')
  next
    case False
    with c show ?thesis by (simp add: chain_def bl')
  qed
  show "blocks s' \<noteq> [] \<longrightarrow> chain s' \<noteq> []"
    using c(2) by (simp add: chain_def bl')
  show "\<forall>b\<in>set (butlast (blocks s')). final b"
    using d(3) by (simp add: bl bl')
  show "distinct (map oid (blocks s'))"
    using d(4) by (simp add: bl bl' o)
  show "\<forall>b\<in>set (blocks s'). oid b < nextOid s'"
    using d(5) by (simp add: bl bl' o n)
  show "\<forall>b\<in>set (blocks s'). status b = ''Pending'' \<longrightarrow> length (records b) = 2"
    using d(6) pend by (simp add: bl bl')
  show "\<forall>b\<in>set (blocks s'). distinct (approvedBy b @ rejectedBy b)"
    using d(7) votes by (simp add: bl bl')
qed


lemma createHibernateBlock_blocks:
  assumes rs: "createHibernateBlock L s = (r, s')"
  shows "(blocks s' = blocks s \<and> nextOid s' = nextOid s) \<or>
      (\<exists>hb. blocks s' = blocks s @ [hb] \<and> oid hb = nextOid s \<and> nextOid s' = Suc (nextOid s) \<and>
        status hb = ''Hibernating'' \<and> approvedBy hb = [] \<and> rejectedBy hb = [])"
    using createHibernateBlock_effect [OF rs] by auto

lemma all_final:
  assumes d3: "\<forall>b\<in>set (butlast (blocks s)). final b" and ne: "blocks s \<noteq> []" and fin: "final (last (blocks s))"
  shows "\<forall>x\<in>set (blocks s). final x"
proof (cases "blocks s" rule: rev_cases)
  case Nil
  with ne show ?thesis by simp
next
  case (snoc ys y)
  with d3 fin show ?thesis by simp
qed

lemma store_inv_append_Hibernating:
  assumes inv: "store_inv L s" and ne: "blocks s \<noteq> []" and fin: "final (last (blocks s))"
      and 2: "blocks s' = blocks s @ [hb]" "oid hb = nextOid s"
      "nextOid s' = Suc (nextOid s)" "status hb = ''Hibernating''" "approvedBy hb = []"
      "rejectedBy hb = []"
  shows "store_inv L s'"
proof -
  note d = store_invD [OF inv]
  have allfin: "\<forall>x\<in>set (blocks s). final x"
    using all_final [OF d(3) ne fin] .
  have ch: "chain s' = chain s"
    using 2(1,4) by (simp add: chain_def)
  show ?thesis
  proof (rule store_invI)
    show "linked L (chain s')" using d(1) by (simp add: ch)
    show "blocks s' \<noteq> [] \<longrightarrow> chain s' \<noteq> []" using d(2) ne by (simp add: ch)
    show "\<forall>b\<in>set (butlast (blocks s')). final b" using allfin by (simp add: 2(1))
    show "distinct (map oid (blocks s'))" using d(4,5) by (auto simp: 2(1,2))
    show "\<forall>b\<in>set (blocks s'). oid b < nextOid s'"
      using d(5) by (auto simp: 2(1,2,3) less_Suc_eq)
    show "\<forall>b\<in>set (blocks s'). status b = ''Pending'' \<longrightarrow> length (records b) = 2"
      using d(6) by (simp add: 2(1,4))
    show "\<forall>b\<in>set (blocks s'). distinct (approvedBy b @ rejectedBy b)"
      using d(7) by (simp add: 2(1,5,6))
  qed
qed

lemma store_inv_createHibernateBlock:
  assumes inv: "store_inv L s" and ne: "blocks s \<noteq> []" and fin: "final (last (blocks s))"
  shows "store_inv L (snd (createHibernateBlock L s))"
proof -
  obtain r s' where rs: "createHibernateBlock L s = (r, s')"
    by (cases "createHibernateBlock L s")
  from createHibernateBlock_blocks [OF rs] have "store_inv L s'"
  proof (elim disjE exE conjE)
    assume "blocks s' = blocks s" "nextOid s' = nextOid s"
    with inv store_inv_cong [of s' s L] show ?thesis by simp
  next
    fix hb
    assume "blocks s' = blocks s @ [hb]" "oid hb = nextOid s" "nextOid s' = Suc (nextOid s)"
      "status hb = ''Hibernating''" "approvedBy hb = []" "rejectedBy hb = []"
    then show ?thesis by (rule store_inv_append_Hibernating [OF inv ne fin])
  qed
  then show ?thesis by (simp add: rs)
qed

lemma store_inv_init: "blocks s = [] \<Longrightarrow> store_inv L s"
  by (simp add: store_inv_def chain_def linked_def)

lemma store_inv_getBlockchain:
  assumes inv: "store_inv L s"
  shows "store_inv L (snd (getBlockchain L s))"
proof (cases "chain s = []")
  case False
  then show ?thesis using inv by (simp add: getBlockchain_def chain_def)
next
  case True
  with store_invD(2) [OF inv] have e: "blocks s = []" by blast
  obtain g s1 where g: "createGenesisBlock L s = (g, s1)"
    by (cases "createGenesisBlock L s")
  then have s1: "blocks s1 = [g]" "status g = ''inChain''" "blockId g = 0" "prevHash g = []"
    "hash g = computeBlockHash L (blockId g) (prevHash g) (timestamp g) (records g)"
    "oid g < nextOid s1" "approvedBy g = []" "rejectedBy g = []"
    by (auto simp: createGenesisBlock_def new_Date_def BlockModel_create_def schema_block_def
          GENESIS_BLOCK_ID_def e Let_def)
  have "store_inv L s1"
    by (rule store_invI) (simp_all add: chain_def s1 linked_genesis)
  moreover have "blocks s1 \<noteq> []" "final (last (blocks s1))"
    by (simp_all add: s1 final_def)
  ultimately have "store_inv L (snd (createHibernateBlock L s1))"
    by (rule store_inv_createHibernateBlock)
  moreover have "snd (getBlockchain L s) = snd (createHibernateBlock L s1)"
    using True g by (simp add: getBlockchain_def chain_def split: prod.splits sum.splits)
  ultimately show ?thesis by simp
qed

lemma store_inv_nonfinal_last:
  assumes inv: "store_inv L s" and b: "b \<in> set (blocks s)" and nf: "\<not> final b"
  obtains bs where "blocks s = bs @ [b]" "\<forall>x\<in>set bs. final x" "\<forall>x\<in>set bs. oid x \<noteq> oid b"
    "linked L (filter (\<lambda>d. status d = ''inChain'') bs)"
    "filter (\<lambda>d. status d = ''inChain'') bs \<noteq> []"
proof -
  note d = store_invD [OF inv]
  from b obtain bs y where bl: "blocks s = bs @ [y]"
    by (cases "blocks s" rule: rev_cases) auto
  with d(3) have fin: "\<forall>x\<in>set bs. final x" by simp
  with b nf bl have y: "y = b" by auto
  from d(4) have "oid b \<notin> oid ` set bs"
    unfolding bl y by simp
  then have o: "\<forall>x\<in>set bs. oid x \<noteq> oid b"
    by (metis imageI)
  from nf have "status b \<noteq> ''inChain''" by (simp add: final_def)
  then have ch: "chain s = filter (\<lambda>d. status d = ''inChain'') bs"
    by (simp add: chain_def bl y)
  from d(1,2) have "linked L (filter (\<lambda>d. status d = ''inChain'') bs)"
    "filter (\<lambda>d. status d = ''inChain'') bs \<noteq> []"
    by (simp_all add: ch bl)
  with bl y fin o show ?thesis by (intro that) simp_all
qed

lemma store_inv_activateBlock:
  assumes inv: "store_inv L s"
  shows "store_inv L (snd (activateBlock L blockID s))"
proof (cases "findOne (\<lambda>d. oid d = blockID \<and> status d = ''Hibernating'') (blocks s)")
  case None
  with inv show ?thesis by (simp add: activateBlock_def)
next
  case (Some b)
  show ?thesis
  proof (cases "length (records b) = 2")
    case False
    with Some inv show ?thesis by (simp add: activateBlock_def MAX_RECORD_def)
  next
    case True
    from findOne_SomeD [OF Some] have b: "b \<in> set (blocks s)" "oid b = blockID"
      "status b = ''Hibernating''"
      by simp_all
    then have nf: "\<not> final b" by (simp add: final_def)
    from inv b(1) nf obtain bs where bs: "blocks s = bs @ [b]" "\<forall>x\<in>set bs. oid x \<noteq> oid b"
      by (rule store_inv_nonfinal_last)
    let ?b' = "b\<lparr>status := ''Pending'', timestamp := toLocaleString L (clock s)\<rparr>"
    have upd: "findOneAndUpdate (\<lambda>d. oid d = blockID)
        (\<lambda>d. d\<lparr>status := ''Pending'', timestamp := toLocaleString L (clock s)\<rparr>) (bs @ [b]) =
        (Some ?b', bs @ [?b'])"
      using bs(2) b(2) by (simp add: findOneAndUpdate_append_last)
    have res: "snd (activateBlock L blockID s) = s\<lparr>clock := Suc (clock s), blocks := bs @ [?b']\<rparr>"
      using Some True by (simp add: activateBlock_def MAX_RECORD_def new_Date_def bs(1) upd)
    have "store_inv L (s\<lparr>clock := Suc (clock s), blocks := bs @ [?b']\<rparr>)"
    proof (rule store_inv_replace_last [OF inv bs(1)])
      show "distinct (approvedBy ?b' @ rejectedBy ?b')"
        using store_invD(7) [OF inv] b(1) by simp
      show "status b \<noteq> ''inChain''" using b(3) by simp
    qed (simp_all add: True)
    then show ?thesis by (simp only: res)
  qed
qed

lemma addToSet_vote_distinct:
  "distinct (approvedBy b @ rejectedBy b) \<Longrightarrow> u \<notin> set (approvedBy b) \<Longrightarrow> u \<notin> set (rejectedBy b) \<Longrightarrow>
   distinct (approvedBy (addToSet_vote a u b) @ rejectedBy (addToSet_vote a u b))"
  by (auto simp: addToSet_vote_def addToSet_def)

lemma addToSet_vote_fields:
  "status (addToSet_vote a u b) = status b" "oid (addToSet_vote a u b) = oid b"
  "records (addToSet_vote a u b) = records b" "blockId (addToSet_vote a u b) = blockId b"
  "prevHash (addToSet_vote a u b) = prevHash b" "hash (addToSet_vote a u b) = hash b"
  "timestamp (addToSet_vote a u b) = timestamp b"
  by (simp_all add: addToSet_vote_def)

lemma store_inv_approveBlock:
  assumes inv: "store_inv L s"
  shows "store_inv L (snd (approveBlock L blockID isApproved uname s))"
proof (cases "findOne (\<lambda>d. oid d = blockID \<and> (uname \<in> set (approvedBy d) \<or> uname \<in> set (rejectedBy d))) (blocks s)")
  case (Some a)
  with inv show ?thesis by (simp add: approveBlock_def)
next
  case dup: None
  show ?thesis
  proof (cases "findOne (\<lambda>d. oid d = blockID \<and> status d = ''Pending'') (blocks s)")
    case None
    with dup inv show ?thesis
      by (simp add: approveBlock_def findOneAndUpdate_None)
  next
    case (Some b)
    from findOne_SomeD [OF Some] have b: "b \<in> set (blocks s)" "oid b = blockID"
      "status b = ''Pending''"
      by simp_all
    then have nf: "\<not> final b" by (simp add: final_def)
    from dup b(1,2) have fresh: "uname \<notin> set (approvedBy b)" "uname \<notin> set (rejectedBy b)"
      by (auto simp: findOne_None_iff)
    from inv b(1) nf obtain bs where bs: "blocks s = bs @ [b]" "\<forall>x\<in>set bs. final x"
      "\<forall>x\<in>set bs. oid x \<noteq> oid b"
      "linked L (filter (\<lambda>d. status d = ''inChain'') bs)"
      "filter (\<lambda>d. status d = ''inChain'') bs \<noteq> []"
      by (rule store_inv_nonfinal_last)
    note d = store_invD [OF inv]
    from d(6) b(1,3) have recs: "length (records b) = 2" by simp
    from d(7) b(1) have dist: "distinct (approvedBy b @ rejectedBy b)" by simp
    let ?b1 = "addToSet_vote isApproved uname b"
    let ?s1 = "s\<lparr>blocks := bs @ [?b1]\<rparr>"
    have run: "snd (approveBlock L blockID isApproved uname s) =
           (if approve_reached s ?b1 then snd (createHibernateBlock L (approve_store L ?s1 bs ?b1))
            else if reject_reached s ?b1 then snd (createHibernateBlock L (reject_store L ?s1 bs ?b1))
            else ?s1)"
      using approveBlock_last [where L = L and isApproved = isApproved,
              OF bs(1) b(3) b(2) _ fresh recs bs(4,5)] bs(3) b(2)
      by (simp add: Let_def)
    have votes1: "distinct (approvedBy ?b1 @ rejectedBy ?b1)"
      using dist fresh by (rule addToSet_vote_distinct)
    have nc: "status b \<noteq> ''inChain''" using b(3) by simp
    have i1: "store_inv L ?s1"
      by (rule store_inv_replace_last [OF inv bs(1), where b' = ?b1])
         (use votes1 in \<open>simp_all add: addToSet_vote_fields b(3) recs\<close>)
    have ia: "store_inv L (approve_store L ?s1 bs ?b1)"
      by (rule store_inv_replace_last [OF inv bs(1),
            where b' = "committed L (filter (\<lambda>d. status d = ''inChain'') bs)
                          (toLocaleString L (clock s)) (mark ''inChain'' ?b1)"])
         (use votes1 nc in \<open>simp_all add: approve_store_def committed_def mark_def
            updateRecordsStatus_def addToSet_vote_fields\<close>)
    have ir: "store_inv L (reject_store L ?s1 bs ?b1)"
      by (rule store_inv_replace_last [OF inv bs(1),
            where b' = "(mark ''Rejected'' ?b1)\<lparr>status := ''Rejected'',
                          timestamp := toLocaleString L (clock s)\<rparr>"])
         (use votes1 nc in \<open>simp_all add: reject_store_def mark_def
            rejectRecords_def addToSet_vote_fields\<close>)
    have "store_inv L (snd (createHibernateBlock L (approve_store L ?s1 bs ?b1)))"
      by (rule store_inv_createHibernateBlock [OF ia])
         (simp_all add: approve_store_def committed_def final_def)
    moreover have "store_inv L (snd (createHibernateBlock L (reject_store L ?s1 bs ?b1)))"
      by (rule store_inv_createHibernateBlock [OF ir])
         (simp_all add: reject_store_def final_def)
    ultimately show ?thesis
      using i1 unfolding run by simp
  qed
qed

lemma updateMany_none: "\<forall>x\<in>set xs. \<not> P x \<Longrightarrow> updateMany P f xs = xs"
  by (induction xs) (auto simp: updateMany_def)

lemma store_inv_fill:
  assumes inv: "store_inv L s"
  shows "store_inv L (s\<lparr>blocks := updateMany (\<lambda>d. status d = ''Hibernating'')
                                   (\<lambda>d. d\<lparr>records := rs\<rparr>) (blocks s)\<rparr>)"
    (is "store_inv L ?s'")
proof (cases "\<exists>b\<in>set (blocks s). status b = ''Hibernating''")
  case False
  then have "updateMany (\<lambda>d. status d = ''Hibernating'') (\<lambda>d. d\<lparr>records := rs\<rparr>) (blocks s) = blocks s"
    by (intro updateMany_none) simp
  with inv store_inv_cong [of ?s' s L] show ?thesis by simp
next
  case True
  then obtain b where b: "b \<in> set (blocks s)" "status b = ''Hibernating''"
    by auto
  then have nf: "\<not> final b" by (simp add: final_def)
  from inv b(1) nf obtain bs where bs: "blocks s = bs @ [b]" "\<forall>x\<in>set bs. final x"
    by (rule store_inv_nonfinal_last)
  from bs(2) have "\<forall>x\<in>set bs. \<not> status x = ''Hibernating''"
    by (auto simp: final_def)
  then have "updateMany (\<lambda>d. status d = ''Hibernating'') (\<lambda>d. d\<lparr>records := rs\<rparr>) bs = bs"
    by (rule updateMany_none)
  then have bl': "blocks ?s' = bs @ [b\<lparr>records := rs\<rparr>]"
    using b(2) by (simp add: bs(1) updateMany_def)
  show ?thesis
  proof (rule store_inv_replace_last [OF inv bs(1) bl'])
    show "distinct (approvedBy (b\<lparr>records := rs\<rparr>) @ rejectedBy (b\<lparr>records := rs\<rparr>))"
      using store_invD(7) [OF inv] b(1) by simp
  qed (simp_all add: b(2))
qed

lemma store_inv_step:
  assumes "step L s s'" "store_inv L s"
  shows "store_inv L s'"
  using assms
proof (cases rule: step.cases)
  case step_getBlockchain
  with assms(2) show ?thesis by (simp add: store_inv_getBlockchain)
next
  case step_getWaitingBlock
  with assms(2) show ?thesis by (simp add: getWaitingBlock_def)
next
  case (step_activateBlock blockID)
  with assms(2) show ?thesis by (simp add: store_inv_activateBlock)
next
  case (step_approveBlock blockID isApproved uname)
  with assms(2) show ?thesis by (simp add: store_inv_approveBlock)
next
  case step_validateBlockchain
  with assms(2) show ?thesis by (simp add: validateBlockchain_def Let_def)
next
  case (step_collections us ts sc pool)
  with assms(2) store_inv_cong [of s' s L] show ?thesis by simp
next
  case (step_fill rs)
  with assms(2) show ?thesis by (simp add: store_inv_fill)
qed

lemma reachable_store_inv: "reachable L s \<Longrightarrow> store_inv L s"
  by (induction rule: reachable.induct) (auto intro: store_inv_init store_inv_step)

section \<open>Accepted votes\<close>

lemma findOne_append_skip: "\<forall>x\<in>set xs. \<not> P x \<Longrightarrow> findOne P (xs @ ys) = findOne P ys"
  by (induction xs) auto

lemma linked_nth_blockId: "linked L c \<Longrightarrow> i < length c \<Longrightarrow> blockId (c ! i) = int i"
proof -
  assume l: "linked L c" and i: "i < length c"
  from l have m: "map blockId c = map int [0..<length c]" by (simp add: linked_def)
  from i have "blockId (c ! i) = map blockId c ! i" by simp
  also have "\<dots> = map int [0..<length c] ! i" by (simp only: m)
  also from i have "\<dots> = int i" by (simp del: upt.simps)
  finally show ?thesis .
qed

lemma linked_max:
  assumes "linked L c" "x \<in> set c"
  shows "blockId x \<le> blockId (last c)"
proof -
  from assms(2) obtain i where i: "i < length c" "x = c ! i"
    by (auto simp: in_set_conv_nth)
  with assms(1) have "blockId x = int i" by (simp add: linked_nth_blockId)
  moreover from assms(2) have "c \<noteq> []" by auto
  with assms(1) have "blockId (last c) = int (length c) - 1" by (rule linked_last_blockId)
  ultimately show ?thesis using i(1) by simp
qed

lemma linked_predecessor:
  assumes l: "linked L c" and b: "b \<in> set c" and n: "blockId b \<noteq> 0"
  shows "(\<exists>!p. p \<in> set c \<and> blockId p = blockId b - 1) \<and>
         (\<forall>p\<in>set c. blockId p = blockId b - 1 \<longrightarrow> prevHash b = hash p)"
proof -
  from b obtain i where i: "i < length c" "b = c ! i"
    by (auto simp: in_set_conv_nth)
  with l have bi: "blockId b = int i" by (simp add: linked_nth_blockId)
  with n have i0: "0 < i" by simp
  from l i0 i have link: "prevHash b = hash (c ! (i - 1))"
    by (simp add: linked_def)
  have uniq: "\<And>p. p \<in> set c \<Longrightarrow> blockId p = blockId b - 1 \<Longrightarrow> p = c ! (i - 1)"
  proof -
    fix p assume "p \<in> set c" "blockId p = blockId b - 1"
    then obtain j where j: "j < length c" "p = c ! j"
      by (auto simp: in_set_conv_nth)
    with l have "blockId p = int j" by (simp add: linked_nth_blockId)
    with \<open>blockId p = blockId b - 1\<close> bi i0 have "j = i - 1" by simp
    with j show "p = c ! (i - 1)" by simp
  qed
  have ex: "c ! (i - 1) \<in> set c \<and> blockId (c ! (i - 1)) = blockId b - 1"
    using i i0 l bi by (simp add: linked_nth_blockId)
  show ?thesis
  proof (intro conjI ballI impI)
    show "\<exists>!p. p \<in> set c \<and> blockId p = blockId b - 1"
      using ex uniq by (intro ex1I [of _ "c ! (i - 1)"]) auto
  next
    fix p assume "p \<in> set c" "blockId p = blockId b - 1"
    with uniq link show "prevHash b = hash p" by simp
  qed
qed

text \<open>What an accepted vote does to a store that satisfies the invariant.\<close>

lemma accepted_vote:
  assumes inv: "store_inv L s"
      and found: "findOne (\<lambda>d. oid d = blockID \<and> status d = ''Pending'') (blocks s) = Some b"
      and fresh: "uname \<notin> set (approvedBy b) \<union> set (rejectedBy b)"
  obtains bs where "blocks s = bs @ [b]" "\<forall>x\<in>set bs. oid x \<noteq> blockID" "oid b = blockID"
    "chain s = filter (\<lambda>d. status d = ''inChain'') bs" "linked L (chain s)" "chain s \<noteq> []"
    "length (records b) = 2"
    "snd (approveBlock L blockID isApproved uname s) =
       (if approve_reached s (addToSet_vote isApproved uname b) then
          snd (createHibernateBlock L
                 (approve_store L (s\<lparr>blocks := bs @ [addToSet_vote isApproved uname b]\<rparr>) bs
                    (addToSet_vote isApproved uname b)))
        else if reject_reached s (addToSet_vote isApproved uname b) then
          snd (createHibernateBlock L
                 (reject_store L (s\<lparr>blocks := bs @ [addToSet_vote isApproved uname b]\<rparr>) bs
                    (addToSet_vote isApproved uname b)))
        else s\<lparr>blocks := bs @ [addToSet_vote isApproved uname b]\<rparr>)"
proof -
  from findOne_SomeD [OF found] have b: "b \<in> set (blocks s)" "oid b = blockID"
    "status b = ''Pending''"
    by simp_all
  then have nf: "\<not> final b" by (simp add: final_def)
  from inv b(1) nf obtain bs where bs: "blocks s = bs @ [b]" "\<forall>x\<in>set bs. final x"
    "\<forall>x\<in>set bs. oid x \<noteq> oid b"
    "linked L (filter (\<lambda>d. status d = ''inChain'') bs)"
    "filter (\<lambda>d. status d = ''inChain'') bs \<noteq> []"
    by (rule store_inv_nonfinal_last)
  from store_invD(6) [OF inv] b(1,3) have recs: "length (records b) = 2" by simp
  from fresh have fr: "uname \<notin> set (approvedBy b)" "uname \<notin> set (rejectedBy b)" by simp_all
  have ch: "chain s = filter (\<lambda>d. status d = ''inChain'') bs"
    using b(3) by (simp add: chain_def bs(1))
  have run: "snd (approveBlock L blockID isApproved uname s) =
       (if approve_reached s (addToSet_vote isApproved uname b) then
          snd (createHibernateBlock L
                 (approve_store L (s\<lparr>blocks := bs @ [addToSet_vote isApproved uname b]\<rparr>) bs
                    (addToSet_vote isApproved uname b)))
        else if reject_reached s (addToSet_vote isApproved uname b) then
          snd (createHibernateBlock L
                 (reject_store L (s\<lparr>blocks := bs @ [addToSet_vote isApproved uname b]\<rparr>) bs
                    (addToSet_vote isApproved uname b)))
        else s\<lparr>blocks := bs @ [addToSet_vote isApproved uname b]\<rparr>)"
    using approveBlock_last [where L = L and isApproved = isApproved,
            OF bs(1) b(3) b(2) _ fr recs bs(4,5)] bs(3) b(2)
    by (simp add: Let_def)
  show ?thesis
    using bs(1) bs(3) b(2) ch bs(4,5) recs run
    by (intro that [of bs]) (simp_all add: ch)
qed

text \<open>After the staging block is created the earlier blocks are where they were.\<close>

lemma createHibernateBlock_prefix:
  "\<exists>new. blocks (snd (createHibernateBlock L s)) = blocks s @ new \<and>
        (\<forall>h\<in>set new. status h = ''Hibernating'') \<and>
        users (snd (createHibernateBlock L s)) = users s \<and>
        transactions (snd (createHibernateBlock L s)) = transactions s \<and>
        supplychains (snd (createHibernateBlock L s)) = supplychains s"
proof -
  obtain r s' where rs: "createHibernateBlock L s = (r, s')"
    by (cases "createHibernateBlock L s")
  from createHibernateBlock_effect [OF rs] show ?thesis
    unfolding rs by (elim conjE disjE exE) (simp_all)
qed

lemma genesis_facts:
  assumes e: "blocks s = []" and g: "createGenesisBlock L s = (g, s1)"
  shows "blocks s1 = [g]" "status g = ''inChain''" "blockId g = 0" "prevHash g = []"
    "hash g = computeBlockHash L (blockId g) (prevHash g) (timestamp g) (records g)"
    "oid g < nextOid s1" "approvedBy g = []" "rejectedBy g = []"
  using g
  by (auto simp: createGenesisBlock_def new_Date_def BlockModel_create_def schema_block_def
          GENESIS_BLOCK_ID_def e Let_def)

lemma threshold_reading:
  "js_ge (js_div a n) CONSENSUS_THRESHOLD =
     (if n = 0 then 0 < a else 66 / 100 \<le> (of_nat a :: rat) / of_nat n)"
  by (simp add: js_div_def CONSENSUS_THRESHOLD_def)

lemma blockConsensus_approve_steps:
  assumes bl: "blocks s = bs @ [b]" and st: "status b = ''Pending''" and ident: "oid b = ident"
      and others: "\<forall>x\<in>set bs. oid x \<noteq> ident"
      and recs: "length (records b) = 2"
      and reached: "approve_reached s b"
  shows "snd (blockConsensus L b ident s) =
           snd (appendToBlockchain L (mark ''inChain'' (b\<lparr>status := ''Approved''\<rparr>)) ident
                  ((updateRecordsStatus s)
                     \<lparr>blocks := bs @ [mark ''inChain'' (b\<lparr>status := ''Approved''\<rparr>)]\<rparr>))"
proof -
  have upd: "\<And>f. findOneAndUpdate (\<lambda>d. oid d = ident) f (bs @ [b]) = (Some (f b), bs @ [f b])"
    using others ident by (simp add: findOneAndUpdate_append_last)
  have o2: "\<forall>x\<in>set bs. oid x \<noteq> oid b"
    using others ident by simp
  let ?s1 = "updateRecordsStatus (s\<lparr>blocks := bs @ [b\<lparr>status := ''Approved''\<rparr>]\<rparr>)"
  have b1: "blocks ?s1 = bs @ [b\<lparr>status := ''Approved''\<rparr>]"
    by (simp add: updateRecordsStatus_def)
  have u: "updateRecordsStatusInBlock (b\<lparr>status := ''Approved''\<rparr>) ?s1 =
             (Inr (mark ''inChain'' (b\<lparr>status := ''Approved''\<rparr>)),
              ?s1\<lparr>blocks := bs @ [mark ''inChain'' (b\<lparr>status := ''Approved''\<rparr>)]\<rparr>)"
    using updateRecordsStatusInBlock_last [OF b1] o2 recs by (simp add: mark_def)
  have e: "?s1\<lparr>blocks := bs @ [mark ''inChain'' (b\<lparr>status := ''Approved''\<rparr>)]\<rparr> =
           (updateRecordsStatus s)\<lparr>blocks := bs @ [mark ''inChain'' (b\<lparr>status := ''Approved''\<rparr>)]\<rparr>"
    by (simp add: updateRecordsStatus_def)
  from reached show ?thesis
    by (simp add: blockConsensus_def st approve_reached_def validators_def Let_def bl upd u e)
qed

section \<open>Votes are kept\<close>

lemma votes_kept_refl: "votes_kept bs bs"
  by (simp add: votes_kept_def)

lemma votes_kept_append: "votes_kept bs (bs @ new)"
  by (simp add: votes_kept_def nth_append)

lemma votes_kept_last:
  assumes "oid b' = oid b" "set (approvedBy b) \<subseteq> set (approvedBy b')"
    "set (rejectedBy b) \<subseteq> set (rejectedBy b')"
  shows "votes_kept (bs @ [b]) (bs @ b' # new)"
  unfolding votes_kept_def using assms by (auto simp: nth_append)

lemma votes_kept_findOneAndUpdate:
  assumes "\<And>d. oid (f d) = oid d \<and> set (approvedBy d) \<subseteq> set (approvedBy (f d)) \<and>
                set (rejectedBy d) \<subseteq> set (rejectedBy (f d))"
  shows "votes_kept xs (snd (findOneAndUpdate P f xs))"
proof -
  have "length (snd (findOneAndUpdate P f xs)) = length xs \<and>
        (\<forall>i<length xs. snd (findOneAndUpdate P f xs) ! i = xs ! i \<or>
                        snd (findOneAndUpdate P f xs) ! i = f (xs ! i))"
  proof (induction xs)
    case Nil
    then show ?case by simp
  next
    case (Cons x xs)
    show ?case
    proof (cases "P x")
      case True
      then show ?thesis by (auto simp: nth_Cons split: nat.splits)
    next
      case False
      with Cons show ?thesis by (auto simp: nth_Cons split: nat.splits prod.splits)
    qed
  qed
  then show ?thesis
    unfolding votes_kept_def using assms by (metis order_refl)
qed

lemma votes_kept_findOneAndUpdate_pair:
  assumes "\<And>d. oid (f d) = oid d \<and> set (approvedBy d) \<subseteq> set (approvedBy (f d)) \<and>
                set (rejectedBy d) \<subseteq> set (rejectedBy (f d))"
      and "findOneAndUpdate P f xs = (r, ys)"
  shows "votes_kept xs ys"
  using votes_kept_findOneAndUpdate [of f xs P, OF assms(1)] assms(2) by simp

lemma votes_kept_updateMany:
  assumes "\<And>d. oid (f d) = oid d \<and> approvedBy (f d) = approvedBy d \<and> rejectedBy (f d) = rejectedBy d"
  shows "votes_kept xs (updateMany P f xs)"
  unfolding votes_kept_def updateMany_def using assms by simp

lemma getBlockchain_appends: "\<exists>new. blocks (snd (getBlockchain L s)) = blocks s @ new"
proof (cases "filter (\<lambda>d. status d = ''inChain'') (blocks s) = []")
  case False
  then show ?thesis by (simp add: getBlockchain_def)
next
  case True
  obtain g s1 where g: "createGenesisBlock L s = (g, s1)"
    by (cases "createGenesisBlock L s")
  then have s1: "blocks s1 = blocks s @ [g]"
    by (auto simp: createGenesisBlock_def new_Date_def BlockModel_create_def Let_def)
  from createHibernateBlock_prefix [of L s1] obtain new where
    "blocks (snd (createHibernateBlock L s1)) = blocks s1 @ new"
    by auto
  moreover have "snd (getBlockchain L s) = snd (createHibernateBlock L s1)"
    using True g by (simp add: getBlockchain_def split: prod.splits sum.splits)
  ultimately show ?thesis by (simp add: s1)
qed

lemma votes_kept_step:
  assumes inv: "store_inv L s" and st: "step L s s'"
  shows "votes_kept (blocks s) (blocks s')"
  using st
proof (cases rule: step.cases)
  case step_getBlockchain
  with getBlockchain_appends [of L s] show ?thesis by (auto simp: votes_kept_append)
next
  case step_getWaitingBlock
  then show ?thesis by (simp add: getWaitingBlock_def votes_kept_refl)
next
  case (step_activateBlock blockID)
  have "votes_kept (blocks s) (blocks (snd (activateBlock L blockID s)))"
    by (auto simp: activateBlock_def new_Date_def Let_def votes_kept_refl
          elim!: votes_kept_findOneAndUpdate_pair [rotated] split: option.splits prod.splits)
  with step_activateBlock show ?thesis by simp
next
  case (step_approveBlock blockID isApproved uname)
  show ?thesis
  proof (cases "findOne (\<lambda>d. oid d = blockID \<and> (uname \<in> set (approvedBy d) \<or> uname \<in> set (rejectedBy d))) (blocks s)")
    case (Some a)
    with step_approveBlock show ?thesis by (simp add: approveBlock_def votes_kept_refl)
  next
    case dup: None
    show ?thesis
    proof (cases "findOne (\<lambda>d. oid d = blockID \<and> status d = ''Pending'') (blocks s)")
      case None
      with dup step_approveBlock show ?thesis
        by (simp add: approveBlock_def findOneAndUpdate_None votes_kept_refl)
    next
      case (Some b)
      from findOne_SomeD [OF Some] dup have fresh: "uname \<notin> set (approvedBy b) \<union> set (rejectedBy b)"
        by (auto simp: findOne_None_iff)
      let ?b1 = "addToSet_vote isApproved uname b"
      from inv Some fresh obtain bs where bs: "blocks s = bs @ [b]"
        and run: "snd (approveBlock L blockID isApproved uname s) =
         (if approve_reached s ?b1 then
            snd (createHibernateBlock L (approve_store L (s\<lparr>blocks := bs @ [?b1]\<rparr>) bs ?b1))
          else if reject_reached s ?b1 then
            snd (createHibernateBlock L (reject_store L (s\<lparr>blocks := bs @ [?b1]\<rparr>) bs ?b1))
          else s\<lparr>blocks := bs @ [?b1]\<rparr>)"
        by (rule accepted_vote [where isApproved = isApproved])
      have sub: "set (approvedBy b) \<subseteq> set (approvedBy ?b1)" "set (rejectedBy b) \<subseteq> set (rejectedBy ?b1)"
        by (auto simp: addToSet_vote_def addToSet_def)
      let ?sa = "approve_store L (s\<lparr>blocks := bs @ [?b1]\<rparr>) bs ?b1"
      let ?sr = "reject_store L (s\<lparr>blocks := bs @ [?b1]\<rparr>) bs ?b1"
      from createHibernateBlock_prefix [of L ?sa] obtain na where
        na: "blocks (snd (createHibernateBlock L ?sa)) = blocks ?sa @ na" by auto
      from createHibernateBlock_prefix [of L ?sr] obtain nr where
        nr: "blocks (snd (createHibernateBlock L ?sr)) = blocks ?sr @ nr" by auto
      have 1: "votes_kept (bs @ [b]) (blocks (snd (createHibernateBlock L ?sa)))"
        unfolding na using sub
        by (simp add: approve_store_def committed_def mark_def addToSet_vote_fields votes_kept_last)
      have 2: "votes_kept (bs @ [b]) (blocks (snd (createHibernateBlock L ?sr)))"
        unfolding nr using sub
        by (simp add: reject_store_def mark_def addToSet_vote_fields votes_kept_last)
      have 3: "votes_kept (bs @ [b]) (bs @ [?b1])"
        using sub votes_kept_last [of ?b1 b bs "[]"] by (simp add: addToSet_vote_fields)
      from 1 2 3 show ?thesis
        unfolding step_approveBlock run bs by simp
    qed
  qed
next
  case step_validateBlockchain
  then show ?thesis by (simp add: validateBlockchain_def Let_def votes_kept_refl)
next
  case (step_collections us ts sc pool)
  then show ?thesis by (simp add: votes_kept_refl)
next
  case (step_fill rs)
  then show ?thesis by (simp add: votes_kept_updateMany)
qed

section \<open>Bootstrap\<close>

lemma validateBlocks_prefix:
  assumes "validateBlocks L (pre @ rest)"
  shows "validateBlocks L pre"
proof -
  have n: "\<And>j. j < length pre \<Longrightarrow> (pre @ rest) ! j = pre ! j"
    by (simp add: nth_append)
  have n1: "\<And>j. 0 < j \<Longrightarrow> j < length pre \<Longrightarrow> (pre @ rest) ! (j - 1) = pre ! (j - 1)"
    by (simp add: nth_append)
  from assms show ?thesis
    unfolding validateBlocks_iff
  proof (intro conjI allI impI, goal_cases)
    case 1
    then show ?case using n [of 0] by (cases pre) auto
  next
    case (2 j)
    then show ?case using n [of j] by (auto dest!: spec [of _ j])
  next
    case (3 j)
    then show ?case using n [of j] by (auto dest!: spec [of _ j])
  next
    case (4 j)
    then show ?case using n [of j] n1 [of j] by (auto dest!: spec [of _ j])
  qed
qed

lemma getBlockchain_bootstrap:
  assumes "blocks s = []"
  shows "\<exists>g new. blocks (snd (getBlockchain L s)) = g # new \<and>
           chain (snd (getBlockchain L s)) = [g] \<and> blockId g = 0 \<and> prevHash g = [] \<and>
           records g = [] \<and> status g = ''inChain'' \<and>
           validateBlocks L (chain (snd (getBlockchain L s))) \<and>
           (new = [] \<longleftrightarrow> length (approvedRecords s) = 1) \<and>
           (\<forall>h\<in>set new. status h = ''Hibernating'')"
proof -
  obtain g s1 where g: "createGenesisBlock L s = (g, s1)"
    by (cases "createGenesisBlock L s")
  from genesis_facts [OF assms g]
  have s1: "blocks s1 = [g]" "status g = ''inChain''" "blockId g = 0" "prevHash g = []"
    "hash g = computeBlockHash L (blockId g) (prevHash g) (timestamp g) (records g)"
    by simp_all
  from g have r: "records g = []" "approvedRecords s1 = approvedRecords s"
    by (auto simp: createGenesisBlock_def new_Date_def BlockModel_create_def schema_block_def Let_def)
  have run: "snd (getBlockchain L s) = snd (createHibernateBlock L s1)"
    using assms g by (simp add: getBlockchain_def split: prod.splits sum.splits)
  obtain x s2 where x: "createHibernateBlock L s1 = (x, s2)"
    by (cases "createHibernateBlock L s1")
  from createHibernateBlock_effect [OF x]
  obtain new where new: "blocks s2 = blocks s1 @ new" "\<forall>h\<in>set new. status h = ''Hibernating''"
    "new = [] \<longleftrightarrow> length (approvedRecords s1) = 1"
    by (elim conjE disjE exE) auto
  from new(2) have nf: "filter (\<lambda>d. status d = ''inChain'') new = []"
    by (induction new) auto
  have ch: "chain s2 = [g]"
    by (simp add: chain_def new(1) s1 nf)
  have v: "validateBlocks L [g]"
    unfolding validateBlocks_iff using s1 r by simp
  show ?thesis
    unfolding run x using new s1 r ch v
    by (intro exI [of _ g] exI [of _ new]) simp
qed

section \<open>The concrete run\<close>

lemma demo_booted_eq:
  "demo_booted = demo_empty\<lparr>blocks := [demo_genesis, demo_staged], approvedRecords := [],
                    nextOid := 2, clock := 2\<rparr>"
  by (simp add: demo_booted_def getBlockchain_def demo_empty_def createGenesisBlock_def
        createHibernateBlock_def hibernate_loop_0 new_Date_def BlockModel_create_def
        schema_block_def demo_pool_def demo_lib_def GENESIS_BLOCK_ID_def demo_genesis_def
        demo_staged_def Let_def)

lemma demo_pending_eq:
  "demo_pending =
     demo_empty\<lparr>blocks := [demo_genesis, demo_staged\<lparr>status := ''Pending'', timestamp := ''t2''\<rparr>],
       approvedRecords := [], nextOid := 2, clock := 3\<rparr>"
  by (simp add: demo_pending_def demo_booted_eq activateBlock_def demo_empty_def
        demo_genesis_def demo_staged_def MAX_RECORD_def new_Date_def demo_lib_def Let_def)

lemma demo_voted_eq:
  "demo_voted =
     demo_empty\<lparr>blocks := [demo_genesis,
         demo_staged\<lparr>status := ''Pending'', timestamp := ''t2'', approvedBy := [''alice'']\<rparr>],
       approvedRecords := [], nextOid := 2, clock := 3\<rparr>"
  by (simp add: demo_voted_def demo_pending_eq approveBlock_def blockConsensus_def demo_empty_def
        demo_genesis_def demo_staged_def addToSet_vote_def addToSet_def demo_users_def js_div_def
        CONSENSUS_THRESHOLD_def Let_def)

lemma demo_reachable:
  "reachable demo_lib demo_booted" "reachable demo_lib demo_pending" "reachable demo_lib demo_voted"
proof -
  have "reachable demo_lib demo_empty"
    by (rule reachable_init) (simp add: demo_empty_def)
  then show 1: "reachable demo_lib demo_booted"
    unfolding demo_booted_def by (rule reachable_step) (rule step_getBlockchain)
  then show 2: "reachable demo_lib demo_pending"
    unfolding demo_pending_def by (rule reachable_step) (rule step_activateBlock)
  then show "reachable demo_lib demo_voted"
    unfolding demo_voted_def by (rule reachable_step) (rule step_approveBlock)
qed

lemma demo_vote_found:
  "findOne (\<lambda>d. oid d = 1 \<and> status d = ''Pending'') (blocks demo_voted) = Some demo_vote"
  by (simp add: demo_voted_eq demo_empty_def demo_genesis_def demo_staged_def demo_vote_def)

lemma demo_vote_fresh: "''bob'' \<notin> set (approvedBy demo_vote) \<union> set (rejectedBy demo_vote)"
  by (simp add: demo_vote_def demo_staged_def)

lemma demo_vote_reached: "approve_reached demo_voted (addToSet_vote True ''bob'' demo_vote)"
  by (simp add: approve_reached_def validators_def demo_voted_eq demo_empty_def demo_users_def
        addToSet_vote_def addToSet_def demo_vote_def demo_staged_def js_div_def
        CONSENSUS_THRESHOLD_def)

lemma demo_chain: "chain demo_voted = [demo_genesis]"
  by (simp add: chain_def demo_voted_eq demo_empty_def demo_genesis_def demo_staged_def)

lemma demo_booted_chain: "chain demo_booted = [demo_genesis]"
  by (simp add: chain_def demo_booted_eq demo_empty_def demo_genesis_def demo_staged_def)

lemma demo_genesis_valid: "validateBlocks demo_lib [demo_genesis]"
  unfolding validateBlocks_iff by (simp add: demo_genesis_def)

section \<open>Runs with requests in flight\<close>

text \<open>The handlers are their phases run one after the other.\<close>

lemma getBlockchain_phases:
  "getBlockchain L s =
     getBlockchain_create L (filter (\<lambda>d. status d = ''inChain'') (blocks s)) s"
  by (simp add: getBlockchain_def getBlockchain_create_def Let_def)

lemma approveBlock_phases:
  "approveBlock L blockID isApproved uname s =
     (case findOne (\<lambda>d. oid d = blockID \<and>
                      (uname \<in> set (approvedBy d) \<or> uname \<in> set (rejectedBy d))) (blocks s) of
        Some _ \<Rightarrow> (Inl (BadRequestError ''Already rejected or approved this block''), s)
      | None \<Rightarrow>
          (case findOneAndUpdate (\<lambda>d. oid d = blockID \<and> status d = ''Pending'')
                  (addToSet_vote isApproved uname) (blocks s) of
             (None, _) \<Rightarrow> (Inl (NotFoundError blockID), s)
           | (Some b, bs1) \<Rightarrow>
               (case blockConsensus L b blockID (s\<lparr>blocks := bs1\<rparr>) of
                  (Inl e, s2) \<Rightarrow> (Inl e, s2)
                | (Inr b', s2) \<Rightarrow>
                    (Inr (if isApproved then ''You have approved this block''
                          else ''You have rejected this block'', b'), s2))))"
  unfolding approveBlock_def by (rule refl)

text \<open>Requests served one at a time are runs of the relation.\<close>

lemma reachable_interleaved_serial: "reachable L s \<Longrightarrow> reachable_interleaved L (s, [])"
  by (induction rule: reachable.induct)
     (auto intro: interleaved_init interleaved_step interleaved.serial)

lemma interleaved_serial_step:
  "reachable_interleaved L (s, []) \<Longrightarrow> step L s s' \<Longrightarrow> reachable_interleaved L (s', [])"
  by (erule interleaved_step) (erule interleaved.serial)

text \<open>Two votes of one validator, both checked before either is written.\<close>

lemma raced_votes_reachable: "reachable_interleaved demo_lib (raced_votes, [])"
proof -
  let ?a = "Vote 1 True ''alice''" and ?r = "Vote 1 False ''alice''"
  let ?pa = "demo_staged\<lparr>status := ''Pending'', timestamp := ''t2'', approvedBy := [''alice'']\<rparr>"
  let ?par = "demo_staged\<lparr>status := ''Pending'', timestamp := ''t2'', approvedBy := [''alice''],
                 rejectedBy := [''alice'']\<rparr>"
  have chk: "findOne (\<lambda>d. oid d = 1 \<and>
                 (''alice'' \<in> set (approvedBy d) \<or> ''alice'' \<in> set (rejectedBy d)))
               (blocks demo_pending) = None"
    by (simp add: demo_pending_eq demo_empty_def demo_genesis_def demo_staged_def)
  have u1: "findOneAndUpdate (\<lambda>d. oid d = 1 \<and> status d = ''Pending'')
              (addToSet_vote True ''alice'') (blocks demo_pending) = (Some ?pa, [demo_genesis, ?pa])"
    by (simp add: demo_pending_eq demo_empty_def demo_genesis_def demo_staged_def
          addToSet_vote_def addToSet_def)
  have u2: "findOneAndUpdate (\<lambda>d. oid d = 1 \<and> status d = ''Pending'')
              (addToSet_vote False ''alice'') (blocks (demo_pending\<lparr>blocks := [demo_genesis, ?pa]\<rparr>)) =
              (Some ?par, [demo_genesis, ?par])"
    by (simp add: demo_genesis_def demo_staged_def addToSet_vote_def addToSet_def)
  have c1: "snd (blockConsensus demo_lib ?pa 1 raced_votes) = raced_votes"
    by (simp add: blockConsensus_def raced_votes_def demo_pending_eq demo_empty_def
          demo_staged_def demo_users_def js_div_def CONSENSUS_THRESHOLD_def Let_def)
  have c2: "snd (blockConsensus demo_lib ?par 1 raced_votes) = raced_votes"
    by (simp add: blockConsensus_def raced_votes_def demo_pending_eq demo_empty_def
          demo_staged_def demo_users_def js_div_def CONSENSUS_THRESHOLD_def Let_def)
  have 0: "reachable_interleaved demo_lib (demo_pending, [])"
    by (rule reachable_interleaved_serial) (rule demo_reachable)
  have 1: "reachable_interleaved demo_lib (demo_pending, [?a])"
    by (rule interleaved_step [OF 0]) (rule approveBlock_check [OF chk])
  have 2: "reachable_interleaved demo_lib (demo_pending, [?r, ?a])"
    by (rule interleaved_step [OF 1]) (rule approveBlock_check [OF chk])
  have 3: "reachable_interleaved demo_lib
             (demo_pending\<lparr>blocks := [demo_genesis, ?pa]\<rparr>, [Consensus ?pa 1, ?r])"
    using interleaved_step [OF 2 approveBlock_addToSet [of 1 True "''alice''" "[?r, ?a]" demo_pending, OF _ u1]]
    by simp
  have 4: "reachable_interleaved demo_lib (raced_votes, [Consensus ?par 1, Consensus ?pa 1])"
    using interleaved_step [OF 3 approveBlock_addToSet
            [of 1 False "''alice''" "[Consensus ?pa 1, ?r]" _ _ _ demo_lib, OF _ u2]]
    by (simp add: raced_votes_def)
  have 5: "reachable_interleaved demo_lib (raced_votes, [Consensus ?pa 1])"
    using interleaved_step [OF 4 blockConsensus_resume
            [of ?par 1 "[Consensus ?par 1, Consensus ?pa 1]" demo_lib raced_votes]]
    unfolding c2 by simp
  show ?thesis
    using interleaved_step [OF 5 blockConsensus_resume
            [of ?pa 1 "[Consensus ?pa 1]" demo_lib raced_votes]]
    unfolding c1 by simp
qed

text \<open>Two bootstraps that both found no chain.\<close>

lemma raced_booted_eq:
  "raced_booted =
     demo_empty\<lparr>blocks := [demo_genesis, demo_staged, demo_genesis2, demo_staged2 3 []],
       approvedRecords := [], nextOid := 4, clock := 4\<rparr>"
  by (simp add: raced_booted_def getBlockchain_create_def demo_empty_def createGenesisBlock_def
        createHibernateBlock_def hibernate_loop_0 new_Date_def BlockModel_create_def
        schema_block_def demo_pool_def demo_lib_def GENESIS_BLOCK_ID_def demo_genesis_def
        demo_staged_def demo_genesis2_def demo_staged2_def Let_def)

lemma raced_pending_eq:
  "raced_pending =
     demo_empty\<lparr>blocks := [demo_genesis, demo_staged\<lparr>status := ''Pending'', timestamp := ''t2''\<rparr>,
                            demo_genesis2, demo_staged2 3 []],
       approvedRecords := [], nextOid := 4, clock := 5\<rparr>"
  by (simp add: raced_pending_def raced_booted_eq activateBlock_def demo_empty_def demo_genesis_def
        demo_staged_def demo_genesis2_def demo_staged2_def MAX_RECORD_def new_Date_def
        demo_lib_def Let_def)

lemma raced_voted_eq:
  "raced_voted =
     demo_empty\<lparr>blocks := [demo_genesis,
         demo_staged\<lparr>status := ''Pending'', timestamp := ''t2'', approvedBy := [''alice'']\<rparr>,
         demo_genesis2, demo_staged2 3 []],
       approvedRecords := [], nextOid := 4, clock := 5\<rparr>"
  by (simp add: raced_voted_def raced_pending_eq approveBlock_def blockConsensus_def demo_empty_def
        demo_genesis_def demo_staged_def demo_genesis2_def demo_staged2_def addToSet_vote_def
        addToSet_def demo_users_def js_div_def CONSENSUS_THRESHOLD_def Let_def)

lemma raced_committed_eq:
  "raced_committed =
     demo_empty\<lparr>blocks := [demo_genesis,
         demo_chained 1 demo_genesis [demo_rcd 0, demo_rcd 1] [''alice'', ''bob''],
         demo_genesis2, demo_staged2 3 [], demo_staged2 4 []],
       transactions := [(demo_rcd 0)\<lparr>rstatus := ''inChain''\<rparr>, (demo_rcd 2)\<lparr>rstatus := ''Created''\<rparr>],
       supplychains := [(demo_rcd 1)\<lparr>rstatus := ''inChain''\<rparr>],
       approvedRecords := [], nextOid := 5, clock := 7\<rparr>"
  by (simp add: raced_committed_def raced_voted_eq approveBlock_def blockConsensus_def demo_empty_def
        demo_genesis_def demo_staged_def demo_genesis2_def demo_staged2_def demo_chained_def
        addToSet_vote_def addToSet_def demo_users_def js_div_def CONSENSUS_THRESHOLD_def
        updateRecordsStatus_def updateMany_def updateRecordsStatusInBlock_def setStatus_loop_pair
        save_records_def appendToBlockchain_def createHibernateBlock_def new_Date_def
        BlockModel_create_def schema_block_def demo_rcd_def demo_lib_def computeBlockHash_def
        Let_def)

lemma raced_committed_reachable: "reachable_interleaved demo_lib (raced_committed, [])"
proof -
  have e: "filter (\<lambda>d. status d = ''inChain'') (blocks demo_empty) = []"
    by (simp add: demo_empty_def)
  have 0: "reachable_interleaved demo_lib (demo_empty, [])"
    by (rule interleaved_init) (simp add: demo_empty_def)
  have 1: "reachable_interleaved demo_lib (demo_empty, [GetChain []])"
    using interleaved_step [OF 0 getBlockchain_find [of demo_lib demo_empty "[]"]] by (simp add: e)
  have 2: "reachable_interleaved demo_lib (demo_empty, [GetChain [], GetChain []])"
    using interleaved_step [OF 1 getBlockchain_find [of demo_lib demo_empty "[GetChain []]"]]
    by (simp add: e)
  have 3: "reachable_interleaved demo_lib
             (snd (getBlockchain_create demo_lib [] demo_empty), [GetChain []])"
    using interleaved_step [OF 2 getBlockchain_resume
            [of "[]" "[GetChain [], GetChain []]" demo_lib demo_empty]]
    by simp
  have 4: "reachable_interleaved demo_lib (raced_booted, [])"
    using interleaved_step [OF 3 getBlockchain_resume [of "[]" "[GetChain []]" demo_lib]]
    by (simp add: raced_booted_def)
  have 5: "reachable_interleaved demo_lib (raced_pending, [])"
    unfolding raced_pending_def by (rule interleaved_serial_step [OF 4]) (rule step_activateBlock)
  have 6: "reachable_interleaved demo_lib (raced_voted, [])"
    unfolding raced_voted_def by (rule interleaved_serial_step [OF 5]) (rule step_approveBlock)
  show ?thesis
    unfolding raced_committed_def by (rule interleaved_serial_step [OF 6]) (rule step_approveBlock)
qed

lemma raced_chain:
  "chain raced_committed =
     [demo_genesis, demo_chained 1 demo_genesis [demo_rcd 0, demo_rcd 1] [''alice'', ''bob''],
      demo_genesis2]"
  by (simp add: chain_def raced_committed_eq demo_empty_def demo_genesis_def demo_genesis2_def
        demo_chained_def demo_staged2_def)

text \<open>Neither store is reached when requests are served one at a time.\<close>

lemma raced_votes_not_serial: "\<not> reachable demo_lib raced_votes"
proof
  assume "reachable demo_lib raced_votes"
  then have "store_inv demo_lib raced_votes" by (rule reachable_store_inv)
  from store_invD(7) [OF this] show False
    by (simp add: raced_votes_def demo_staged_def)
qed

lemma raced_committed_not_serial: "\<not> reachable demo_lib raced_committed"
proof
  assume "reachable demo_lib raced_committed"
  then have "store_inv demo_lib raced_committed" by (rule reachable_store_inv)
  from store_invD(3) [OF this] show False
    by (simp add: raced_committed_eq demo_empty_def final_def demo_staged2_def)
qed

text \<open>Two approvals that both reach the threshold.\<close>

lemmas overlap_defs =
  demo_empty_def demo_genesis_def demo_staged_def demo_staged2_def demo_chained_def
  chained1_def chained2_def chained3_def doc_bob_def doc_carol_def demo_pool4_def
  overlap_base_def demo_users_def demo_rcd_def

lemmas run_defs =
  approveBlock_def blockConsensus_def activateBlock_def addToSet_vote_def addToSet_def
  js_div_def CONSENSUS_THRESHOLD_def MAX_RECORD_def updateRecordsStatus_def updateMany_def
  updateRecordsStatusInBlock_def setStatus_loop_pair save_records_def appendToBlockchain_def
  createHibernateBlock_def hibernate_loop_0 new_Date_def BlockModel_create_def schema_block_def
  demo_lib_def computeBlockHash_def Let_def

lemma overlap_once_eq:
  "overlap_once =
     overlap_base\<lparr>blocks := [demo_genesis, chained1, demo_staged2 2 [demo_rcd 10, demo_rcd 11]],
       approvedRecords := [\<lparr>ar_id = 12, ar_records = demo_rcd 12\<rparr>,
                           \<lparr>ar_id = 13, ar_records = demo_rcd 13\<rparr>],
       nextOid := 3, clock := 5\<rparr>"
  by (simp add: overlap_once_def overlap_carol_def overlap_refilled_def demo_voted_eq
        overlap_defs run_defs)

lemma overlap_twice_eq:
  "overlap_twice =
     overlap_base\<lparr>blocks := [demo_genesis, chained1, demo_staged2 2 [demo_rcd 10, demo_rcd 11],
                               demo_staged2 3 [demo_rcd 12, demo_rcd 13]],
       nextOid := 4, clock := 7\<rparr>"
  by (simp add: overlap_twice_def overlap_once_eq overlap_defs run_defs)

lemma overlap_pending3_eq:
  "overlap_pending3 =
     overlap_base\<lparr>blocks := [demo_genesis, chained1, demo_staged2 2 [demo_rcd 10, demo_rcd 11],
                               (demo_staged2 3 [demo_rcd 12, demo_rcd 13])\<lparr>status := ''Pending''\<rparr>],
       nextOid := 4, clock := 8\<rparr>"
  by (simp add: overlap_pending3_def overlap_twice_eq overlap_defs run_defs)

lemma overlap_voted3_eq:
  "overlap_voted3 =
     overlap_base\<lparr>blocks := [demo_genesis, chained1, demo_staged2 2 [demo_rcd 10, demo_rcd 11],
                               (demo_staged2 3 [demo_rcd 12, demo_rcd 13])
                                 \<lparr>status := ''Pending'', approvedBy := [''alice'']\<rparr>],
       nextOid := 4, clock := 8\<rparr>"
  by (simp add: overlap_voted3_def overlap_pending3_eq overlap_defs run_defs)

lemma overlap_committed3_eq:
  "overlap_committed3 =
     overlap_base\<lparr>blocks := [demo_genesis, chained1, demo_staged2 2 [demo_rcd 10, demo_rcd 11],
                               chained2, demo_staged2 4 []],
       nextOid := 5, clock := 10\<rparr>"
  by (simp add: overlap_committed3_def overlap_voted3_eq overlap_defs run_defs)

lemma overlap_pending2_eq:
  "overlap_pending2 =
     overlap_base\<lparr>blocks := [demo_genesis, chained1,
                               (demo_staged2 2 [demo_rcd 10, demo_rcd 11])\<lparr>status := ''Pending''\<rparr>,
                               chained2, demo_staged2 4 []],
       nextOid := 5, clock := 11\<rparr>"
  by (simp add: overlap_pending2_def overlap_committed3_eq overlap_defs run_defs)

lemma overlap_voted2_eq:
  "overlap_voted2 =
     overlap_base\<lparr>blocks := [demo_genesis, chained1,
                               (demo_staged2 2 [demo_rcd 10, demo_rcd 11])
                                 \<lparr>status := ''Pending'', approvedBy := [''alice'']\<rparr>,
                               chained2, demo_staged2 4 []],
       nextOid := 5, clock := 11\<rparr>"
  by (simp add: overlap_voted2_def overlap_pending2_eq overlap_defs run_defs)

lemma overlap_final_eq:
  "overlap_final =
     overlap_base\<lparr>blocks := [demo_genesis, chained1, chained3, chained2, demo_staged2 4 [],
                               demo_staged2 5 []],
       nextOid := 6, clock := 13\<rparr>"
  by (simp add: overlap_final_def overlap_voted2_eq overlap_defs run_defs)

lemma overlap_final_reachable: "reachable_interleaved demo_lib (overlap_final, [])"
proof -
  let ?b = "Vote 1 True ''bob''" and ?c = "Vote 1 True ''carol''"
  have 0: "reachable_interleaved demo_lib (demo_voted, [])"
    by (rule reachable_interleaved_serial) (rule demo_reachable)
  have "step demo_lib demo_voted
          (demo_voted\<lparr>users := users demo_voted, transactions := transactions demo_voted,
             supplychains := supplychains demo_voted, approvedRecords := demo_pool4\<rparr>)"
    by (rule step_collections)
  then have "step demo_lib demo_voted overlap_refilled"
    by (simp add: overlap_refilled_def)
  with 0 have 1: "reachable_interleaved demo_lib (overlap_refilled, [])"
    by (rule interleaved_serial_step)
  have bl: "blocks overlap_refilled =
      [demo_genesis, demo_staged\<lparr>status := ''Pending'', timestamp := ''t2'', approvedBy := [''alice'']\<rparr>]"
    by (simp add: overlap_refilled_def demo_voted_eq)
  have chk: "\<And>u. u \<noteq> ''alice'' \<Longrightarrow> findOne (\<lambda>d. oid d = 1 \<and>
                 (u \<in> set (approvedBy d) \<or> u \<in> set (rejectedBy d))) (blocks overlap_refilled) = None"
    by (simp add: bl demo_genesis_def demo_staged_def)
  have u1: "findOneAndUpdate (\<lambda>d. oid d = 1 \<and> status d = ''Pending'')
              (addToSet_vote True ''bob'') (blocks overlap_refilled) =
              (Some doc_bob, [demo_genesis, doc_bob])"
    by (simp add: bl demo_genesis_def demo_staged_def doc_bob_def addToSet_vote_def addToSet_def)
  have u2: "findOneAndUpdate (\<lambda>d. oid d = 1 \<and> status d = ''Pending'')
              (addToSet_vote True ''carol'') (blocks overlap_bob) =
              (Some doc_carol, [demo_genesis, doc_carol])"
    by (simp add: overlap_bob_def demo_genesis_def demo_staged_def doc_bob_def doc_carol_def
          addToSet_vote_def addToSet_def)
  have ne: "doc_bob \<noteq> doc_carol"
    by (simp add: doc_bob_def doc_carol_def demo_staged_def)
  have 2: "reachable_interleaved demo_lib (overlap_refilled, [?b])"
    by (rule interleaved_step [OF 1]) (rule approveBlock_check [OF chk], simp)
  have 3: "reachable_interleaved demo_lib (overlap_refilled, [?c, ?b])"
    by (rule interleaved_step [OF 2]) (rule approveBlock_check [OF chk], simp)
  have 4: "reachable_interleaved demo_lib (overlap_bob, [Consensus doc_bob 1, ?c])"
    using interleaved_step [OF 3 approveBlock_addToSet
            [of 1 True "''bob''" "[?c, ?b]" overlap_refilled, OF _ u1]]
    by (simp add: overlap_bob_def)
  have 5: "reachable_interleaved demo_lib (overlap_carol, [Consensus doc_carol 1, Consensus doc_bob 1])"
    using interleaved_step [OF 4 approveBlock_addToSet
            [of 1 True "''carol''" "[Consensus doc_bob 1, ?c]" overlap_bob, OF _ u2]]
    by (simp add: overlap_bob_def overlap_carol_def)
  have 6: "reachable_interleaved demo_lib (overlap_once, [Consensus doc_carol 1])"
    using interleaved_step [OF 5 blockConsensus_resume
            [of doc_bob 1 "[Consensus doc_carol 1, Consensus doc_bob 1]" demo_lib overlap_carol]]
      ne
    unfolding overlap_once_def [symmetric] by simp
  have 7: "reachable_interleaved demo_lib (overlap_twice, [])"
    using interleaved_step [OF 6 blockConsensus_resume
            [of doc_carol 1 "[Consensus doc_carol 1]" demo_lib overlap_once]]
    unfolding overlap_twice_def [symmetric] by simp
  have 8: "reachable_interleaved demo_lib (overlap_pending3, [])"
    unfolding overlap_pending3_def by (rule interleaved_serial_step [OF 7]) (rule step_activateBlock)
  have 9: "reachable_interleaved demo_lib (overlap_voted3, [])"
    unfolding overlap_voted3_def by (rule interleaved_serial_step [OF 8]) (rule step_approveBlock)
  have 10: "reachable_interleaved demo_lib (overlap_committed3, [])"
    unfolding overlap_committed3_def by (rule interleaved_serial_step [OF 9]) (rule step_approveBlock)
  have 11: "reachable_interleaved demo_lib (overlap_pending2, [])"
    unfolding overlap_pending2_def by (rule interleaved_serial_step [OF 10]) (rule step_activateBlock)
  have 12: "reachable_interleaved demo_lib (overlap_voted2, [])"
    unfolding overlap_voted2_def by (rule interleaved_serial_step [OF 11]) (rule step_approveBlock)
  show ?thesis
    unfolding overlap_final_def by (rule interleaved_serial_step [OF 12]) (rule step_approveBlock)
qed

lemma overlap_chain: "chain overlap_final = [demo_genesis, chained1, chained3, chained2]"
  by (simp add: chain_def overlap_final_eq overlap_defs)

lemma overlap_blockIds:
  "blockId demo_genesis = 0" "blockId chained1 = 1" "blockId chained2 = 2" "blockId chained3 = 3"
  by (simp_all add: overlap_defs)

lemma overlap_sorted:
  "sort_key blockId [demo_genesis, chained1, chained3, chained2] =
     [demo_genesis, chained1, chained2, chained3]"
  by (simp add: overlap_blockIds)

lemma overlap_links:
  "prevHash demo_genesis = []" "prevHash chained1 = hash demo_genesis"
  "prevHash chained2 = hash chained1" "prevHash chained3 = hash chained2"
  "hash chained2 \<noteq> hash chained1"
  by (simp_all add: overlap_defs computeBlockHash_def demo_lib_def)

lemma overlap_hashes:
  "\<forall>b\<in>set [demo_genesis, chained1, chained2, chained3].
      hash b = computeBlockHash demo_lib (blockId b) (prevHash b) (timestamp b) (records b) \<and>
      (\<forall>r\<in>set (records b). amount r \<noteq> None \<longrightarrow> checkTransactionValidity demo_lib r)"
  by (simp add: overlap_defs demo_lib_def)

section \<open>Consensus\<close>

text \<open>
  C1. On a reachable store, take a vote that is accepted: the block with the given id is
  Pending and the voter is in neither of its vote lists. With \<open>b1\<close> the block after the
  vote and \<open>n\<close> the number of users whose role is Validator, the two comparisons of
  the engine are \<open>|approvedBy b1| / n \<ge> 0.66\<close> and \<open>|rejectedBy b1| / n \<ge> 0.66\<close> (for
  \<open>n = 0\<close> JavaScript's division gives Infinity for a non-empty list and NaN for an empty
  one). The block keeps the vote lists of \<open>b1\<close>. If the approve comparison holds, the
  block is first stored as Approved and \<^verbatim>\<open>appendToBlockchain\<close> then leaves it inChain;
  else if the reject comparison holds it is Rejected; else it stays Pending and the store
  differs from the old one in that block's vote only.
\<close>

theorem vote_outcome:
  assumes r: "reachable L s"
      and found: "findOne (\<lambda>d. oid d = blockID \<and> status d = ''Pending'') (blocks s) = Some b"
      and fresh: "uname \<notin> set (approvedBy b) \<union> set (rejectedBy b)"
  shows "let b1 = addToSet_vote isApproved uname b;
             s' = snd (approveBlock L blockID isApproved uname s);
             n = length (filter (\<lambda>u. role u = ''Validator'') (users s))
         in approve_reached s b1 =
              (if n = 0 then 0 < length (approvedBy b1)
               else 66 / 100 \<le> (of_nat (length (approvedBy b1)) :: rat) / of_nat n) \<and>
            reject_reached s b1 =
              (if n = 0 then 0 < length (rejectedBy b1)
               else 66 / 100 \<le> (of_nat (length (rejectedBy b1)) :: rat) / of_nat n) \<and>
            (\<exists>b'. findOne (\<lambda>d. oid d = blockID) (blocks s') = Some b' \<and>
                  approvedBy b' = approvedBy b1 \<and> rejectedBy b' = rejectedBy b1 \<and>
                  (if approve_reached s b1 then
                     status b' = ''inChain'' \<and>
                     (\<exists>sm bm. findOne (\<lambda>d. oid d = blockID) (blocks sm) = Some bm \<and>
                        status bm = ''Approved'' \<and>
                        s' = snd (appendToBlockchain L bm blockID sm))
                   else if reject_reached s b1 then status b' = ''Rejected''
                   else status b' = ''Pending'' \<and>
                        s' = s\<lparr>blocks := map (\<lambda>d. if oid d = blockID then b1 else d) (blocks s)\<rparr>))"
proof -
  let ?b1 = "addToSet_vote isApproved uname b"
  let ?s' = "snd (approveBlock L blockID isApproved uname s)"
  from r have inv: "store_inv L s" by (rule reachable_store_inv)
  from inv found fresh obtain bs where bs: "blocks s = bs @ [b]" "\<forall>x\<in>set bs. oid x \<noteq> blockID"
    "oid b = blockID" "length (records b) = 2"
    and run: "?s' =
       (if approve_reached s ?b1 then
          snd (createHibernateBlock L (approve_store L (s\<lparr>blocks := bs @ [?b1]\<rparr>) bs ?b1))
        else if reject_reached s ?b1 then
          snd (createHibernateBlock L (reject_store L (s\<lparr>blocks := bs @ [?b1]\<rparr>) bs ?b1))
        else s\<lparr>blocks := bs @ [?b1]\<rparr>)"
    by (rule accepted_vote [where isApproved = isApproved])
  from findOne_SomeD [OF found] have st: "status b = ''Pending''" by simp
  have fo: "\<And>x new. oid x = blockID \<Longrightarrow> findOne (\<lambda>d. oid d = blockID) (bs @ x # new) = Some x"
    using bs(2) by (simp add: findOne_append_skip)
  have thr: "approve_reached s ?b1 =
      (if length (filter (\<lambda>u. role u = ''Validator'') (users s)) = 0 then 0 < length (approvedBy ?b1)
       else 66 / 100 \<le> (of_nat (length (approvedBy ?b1)) :: rat) /
              of_nat (length (filter (\<lambda>u. role u = ''Validator'') (users s))))"
    "reject_reached s ?b1 =
      (if length (filter (\<lambda>u. role u = ''Validator'') (users s)) = 0 then 0 < length (rejectedBy ?b1)
       else 66 / 100 \<le> (of_nat (length (rejectedBy ?b1)) :: rat) /
              of_nat (length (filter (\<lambda>u. role u = ''Validator'') (users s))))"
    unfolding approve_reached_def reject_reached_def validators_def threshold_reading by simp_all
  have out: "\<exists>b'. findOne (\<lambda>d. oid d = blockID) (blocks ?s') = Some b' \<and>
                  approvedBy b' = approvedBy ?b1 \<and> rejectedBy b' = rejectedBy ?b1 \<and>
                  (if approve_reached s ?b1 then
                     status b' = ''inChain'' \<and>
                     (\<exists>sm bm. findOne (\<lambda>d. oid d = blockID) (blocks sm) = Some bm \<and>
                        status bm = ''Approved'' \<and>
                        ?s' = snd (appendToBlockchain L bm blockID sm))
                   else if reject_reached s ?b1 then status b' = ''Rejected''
                   else status b' = ''Pending'' \<and>
                        ?s' = s\<lparr>blocks := map (\<lambda>d. if oid d = blockID then ?b1 else d) (blocks s)\<rparr>)"
  proof (cases "approve_reached s ?b1")
    case True
    let ?c = "committed L (filter (\<lambda>d. status d = ''inChain'') bs) (toLocaleString L (clock s))
                (mark ''inChain'' ?b1)"
    let ?sa = "approve_store L (s\<lparr>blocks := bs @ [?b1]\<rparr>) bs ?b1"
    from createHibernateBlock_prefix [of L ?sa] obtain new where
      new: "blocks (snd (createHibernateBlock L ?sa)) = blocks ?sa @ new"
      by auto
    have bsa: "blocks ?sa = bs @ [?c]" by (simp add: approve_store_def)
    have f: "findOne (\<lambda>d. oid d = blockID) (blocks ?s') = Some ?c"
      using True by (simp add: run new bsa fo committed_def mark_def addToSet_vote_fields bs(3))
    let ?bm = "mark ''inChain'' (?b1\<lparr>status := ''Approved''\<rparr>)"
    let ?sm = "(updateRecordsStatus (s\<lparr>blocks := bs @ [?b1]\<rparr>))\<lparr>blocks := bs @ [?bm]\<rparr>"
    have dup: "findOne (\<lambda>d. oid d = blockID \<and> (uname \<in> set (approvedBy d) \<or> uname \<in> set (rejectedBy d)))
               (blocks s) = None"
      using bs(1,2,3) fresh by (auto simp: findOne_None_iff)
    have upd: "findOneAndUpdate (\<lambda>d. oid d = blockID \<and> status d = ''Pending'')
               (addToSet_vote isApproved uname) (blocks s) = (Some ?b1, bs @ [?b1])"
      using bs(1,2,3) st by (simp add: findOneAndUpdate_append_last)
    have "?s' = snd (blockConsensus L ?b1 blockID (s\<lparr>blocks := bs @ [?b1]\<rparr>))"
      unfolding approveBlock_def dup upd by (simp split: prod.splits sum.splits)
    also have "\<dots> = snd (appendToBlockchain L ?bm blockID ?sm)"
      by (rule blockConsensus_approve_steps)
         (use True bs st in \<open>simp_all add: addToSet_vote_fields approve_reached_def validators_def\<close>)
    finally have mid: "?s' = snd (appendToBlockchain L ?bm blockID ?sm)" .
    have fm: "findOne (\<lambda>d. oid d = blockID) (blocks ?sm) = Some ?bm"
      using fo [of ?bm "[]"] by (simp add: mark_def addToSet_vote_fields bs(3))
    have sm: "status ?bm = ''Approved''" by (simp add: mark_def)
    from mid fm sm have "\<exists>sm bm. findOne (\<lambda>d. oid d = blockID) (blocks sm) = Some bm \<and>
        status bm = ''Approved'' \<and> ?s' = snd (appendToBlockchain L bm blockID sm)"
      by (intro exI [of _ ?sm] exI [of _ ?bm]) simp
    with True f show ?thesis
      by (intro exI [of _ ?c]) (simp add: committed_def mark_def)
  next
    case na: False
    show ?thesis
    proof (cases "reject_reached s ?b1")
      case True
      let ?c = "(mark ''Rejected'' ?b1)\<lparr>status := ''Rejected'', timestamp := toLocaleString L (clock s)\<rparr>"
      let ?sa = "reject_store L (s\<lparr>blocks := bs @ [?b1]\<rparr>) bs ?b1"
      from createHibernateBlock_prefix [of L ?sa] obtain new where
        new: "blocks (snd (createHibernateBlock L ?sa)) = blocks ?sa @ new"
        by auto
      have bsa: "blocks ?sa = bs @ [?c]" by (simp add: reject_store_def)
      have f: "findOne (\<lambda>d. oid d = blockID) (blocks ?s') = Some ?c"
        using True na by (simp add: run new bsa fo mark_def addToSet_vote_fields bs(3))
      with True na show ?thesis
        by (intro exI [of _ ?c]) (simp add: mark_def)
    next
      case False
      have m: "map (\<lambda>d. if oid d = blockID then ?b1 else d) (blocks s) = bs @ [?b1]"
        using bs(2,3) by (simp add: bs(1) map_idI)
      have f: "findOne (\<lambda>d. oid d = blockID) (blocks ?s') = Some ?b1"
        using False na fo [of ?b1 "[]"] by (simp add: run addToSet_vote_fields bs(3))
      with False na st show ?thesis
        by (intro exI [of _ ?b1]) (simp add: run m addToSet_vote_fields)
    qed
  qed
  show ?thesis
    unfolding Let_def using thr out by blast
qed

theorem vote_outcome_witness:
  "\<exists>b'. findOne (\<lambda>d. oid d = 1) (blocks (snd (approveBlock demo_lib 1 True ''bob'' demo_voted))) =
           Some b' \<and>
         approvedBy b' = [''alice'', ''bob''] \<and> rejectedBy b' = [] \<and> status b' = ''inChain''"
  using vote_outcome [OF demo_reachable(3) demo_vote_found demo_vote_fresh, of True]
    demo_vote_reached
  unfolding Let_def
  by (auto simp: addToSet_vote_def addToSet_def demo_vote_def demo_staged_def)

section \<open>Hash chain\<close>

text \<open>
  Requests served one at a time. An accepted vote that reaches the approve threshold
  appends the voted block to the chain with \<open>blockId\<close> one more than the highest
  \<open>blockId\<close> of the chain, \<open>prevHash\<close> the hash of that highest block, and \<open>hash\<close> the
  digest of its own final fields. And every chain block with \<open>blockId \<noteq> 0\<close> has exactly
  one chain block with the preceding \<open>blockId\<close>, whose hash is its \<open>prevHash\<close>.
\<close>

lemma serial_chain_linkage:
  "(reachable L s \<and>
    findOne (\<lambda>d. oid d = blockID \<and> status d = ''Pending'') (blocks s) = Some b \<and>
    uname \<notin> set (approvedBy b) \<union> set (rejectedBy b) \<and>
    approve_reached s (addToSet_vote isApproved uname b) \<longrightarrow>
      (\<exists>b' latest.
          chain (snd (approveBlock L blockID isApproved uname s)) = chain s @ [b'] \<and>
          oid b' = blockID \<and> latest \<in> set (chain s) \<and>
          (\<forall>x\<in>set (chain s). blockId x \<le> blockId latest) \<and>
          blockId b' = blockId latest + 1 \<and> prevHash b' = hash latest \<and>
          hash b' = computeBlockHash L (blockId b') (prevHash b') (timestamp b') (records b'))) \<and>
   (reachable L s \<longrightarrow>
      (\<forall>x\<in>set (chain s). blockId x \<noteq> 0 \<longrightarrow>
          (\<exists>!p. p \<in> set (chain s) \<and> blockId p = blockId x - 1) \<and>
          (\<forall>p\<in>set (chain s). blockId p = blockId x - 1 \<longrightarrow> prevHash x = hash p)))"
proof (intro conjI impI)
  assume a: "reachable L s \<and>
    findOne (\<lambda>d. oid d = blockID \<and> status d = ''Pending'') (blocks s) = Some b \<and>
    uname \<notin> set (approvedBy b) \<union> set (rejectedBy b) \<and>
    approve_reached s (addToSet_vote isApproved uname b)"
  let ?b1 = "addToSet_vote isApproved uname b"
  let ?s' = "snd (approveBlock L blockID isApproved uname s)"
  from a have inv: "store_inv L s" by (simp add: reachable_store_inv)
  from a have found: "findOne (\<lambda>d. oid d = blockID \<and> status d = ''Pending'') (blocks s) = Some b"
    and fresh: "uname \<notin> set (approvedBy b) \<union> set (rejectedBy b)"
    and reached: "approve_reached s ?b1"
    by simp_all
  from inv found fresh obtain bs where bs: "blocks s = bs @ [b]" "oid b = blockID"
    "chain s = filter (\<lambda>d. status d = ''inChain'') bs" "linked L (chain s)" "chain s \<noteq> []"
    and run: "?s' =
       (if approve_reached s ?b1 then
          snd (createHibernateBlock L (approve_store L (s\<lparr>blocks := bs @ [?b1]\<rparr>) bs ?b1))
        else if reject_reached s ?b1 then
          snd (createHibernateBlock L (reject_store L (s\<lparr>blocks := bs @ [?b1]\<rparr>) bs ?b1))
        else s\<lparr>blocks := bs @ [?b1]\<rparr>)"
    by (rule accepted_vote [where isApproved = isApproved])
  let ?c = "committed L (chain s) (toLocaleString L (clock s)) (mark ''inChain'' ?b1)"
  let ?sa = "approve_store L (s\<lparr>blocks := bs @ [?b1]\<rparr>) bs ?b1"
  from createHibernateBlock_prefix [of L ?sa] obtain new where
    new: "blocks (snd (createHibernateBlock L ?sa)) = blocks ?sa @ new"
      "\<forall>h\<in>set new. status h = ''Hibernating''"
    by auto
  from new(2) have nf: "filter (\<lambda>d. status d = ''inChain'') new = []"
    by (induction new) auto
  have bsa: "blocks ?sa = bs @ [?c]" by (simp add: approve_store_def bs(3))
  have ch: "chain ?s' = chain s @ [?c]"
    using reached by (simp add: run chain_def new(1) bsa nf bs(3) [unfolded chain_def] committed_def)
  have l: "last (chain s) \<in> set (chain s)" using bs(5) by simp
  have mx: "\<forall>x\<in>set (chain s). blockId x \<le> blockId (last (chain s))"
    using linked_max [OF bs(4)] by blast
  show "\<exists>b' latest.
          chain ?s' = chain s @ [b'] \<and> oid b' = blockID \<and> latest \<in> set (chain s) \<and>
          (\<forall>x\<in>set (chain s). blockId x \<le> blockId latest) \<and>
          blockId b' = blockId latest + 1 \<and> prevHash b' = hash latest \<and>
          hash b' = computeBlockHash L (blockId b') (prevHash b') (timestamp b') (records b')"
    using ch l mx
    by (intro exI [of _ ?c] exI [of _ "last (chain s)"])
       (simp add: committed_def mark_def addToSet_vote_fields bs(2))
next
  assume "reachable L s"
  then have "linked L (chain s)"
    by (intro store_invD(1) reachable_store_inv)
  then show "\<forall>x\<in>set (chain s). blockId x \<noteq> 0 \<longrightarrow>
          (\<exists>!p. p \<in> set (chain s) \<and> blockId p = blockId x - 1) \<and>
          (\<forall>p\<in>set (chain s). blockId p = blockId x - 1 \<longrightarrow> prevHash x = hash p)"
    using linked_predecessor by blast
qed

lemma serial_chain_linkage_demo:
  "\<exists>b'. chain demo_committed = [demo_genesis, b'] \<and> blockId b' = 1 \<and>
         prevHash b' = hash demo_genesis \<and>
         hash b' = computeBlockHash demo_lib (blockId b') (prevHash b') (timestamp b') (records b')"
proof -
  have hyp: "reachable demo_lib demo_voted \<and>
      findOne (\<lambda>d. oid d = 1 \<and> status d = ''Pending'') (blocks demo_voted) = Some demo_vote \<and>
      ''bob'' \<notin> set (approvedBy demo_vote) \<union> set (rejectedBy demo_vote) \<and>
      approve_reached demo_voted (addToSet_vote True ''bob'' demo_vote)"
    using demo_reachable(3) demo_vote_found demo_vote_fresh demo_vote_reached by simp
  from serial_chain_linkage [of demo_lib demo_voted 1 demo_vote "''bob''" True] hyp
  obtain b' latest where b': "chain demo_committed = chain demo_voted @ [b']"
    "latest \<in> set (chain demo_voted)" "blockId b' = blockId latest + 1" "prevHash b' = hash latest"
    "hash b' = computeBlockHash demo_lib (blockId b') (prevHash b') (timestamp b') (records b')"
    unfolding demo_committed_def by blast
  from b'(2) have l: "latest = demo_genesis" by (simp add: demo_chain)
  have r: "reachable demo_lib demo_committed"
    unfolding demo_committed_def
    by (rule reachable_step [OF demo_reachable(3)]) (rule step_approveBlock)
  have bid: "blockId b' = 1" using b'(3) l by (simp add: demo_genesis_def)
  have mem: "b' \<in> set (chain demo_committed)" "demo_genesis \<in> set (chain demo_committed)"
    by (simp_all add: b'(1) demo_chain)
  from serial_chain_linkage [of demo_lib demo_committed] r
  have "\<forall>x\<in>set (chain demo_committed). blockId x \<noteq> 0 \<longrightarrow>
          (\<forall>p\<in>set (chain demo_committed). blockId p = blockId x - 1 \<longrightarrow> prevHash x = hash p)"
    by blast
  with mem bid have "prevHash b' = hash demo_genesis"
    by (auto simp: demo_genesis_def)
  with b'(1,5) bid show ?thesis
    by (intro exI [of _ b']) (simp add: demo_chain)
qed

text \<open>
  C2, at the store reached when two first \<^verbatim>\<open>getBlockchain\<close> requests both find no
  chain before either writes, and block 1 is then activated and approved by alice and
  bob: each request has created a genesis block, so the chain holds two blocks with
  \<open>blockId\<close> 0, of different hashes, and the committed block with \<open>blockId\<close> 1 carries
  the hash of the first of them and not of the second.
\<close>

theorem concurrent_bootstrap_breaks_linkage:
  "reachable_interleaved demo_lib (raced_committed, []) \<and>
   chain raced_committed =
     [demo_genesis, demo_chained 1 demo_genesis [demo_rcd 0, demo_rcd 1] [''alice'', ''bob''],
      demo_genesis2] \<and>
   map blockId (chain raced_committed) = [0, 1, 0] \<and>
   hash demo_genesis \<noteq> hash demo_genesis2 \<and>
   prevHash (chain raced_committed ! 1) = hash demo_genesis \<and>
   prevHash (chain raced_committed ! 1) \<noteq> hash demo_genesis2"
  using raced_committed_reachable
  by (simp add: raced_chain demo_genesis_def demo_genesis2_def demo_chained_def
        computeBlockHash_def demo_lib_def)

section \<open>Chain validation\<close>

text \<open>
  \<^verbatim>\<open>validateBlockchain\<close> returns the store as it was, with the verdict of
  \<^verbatim>\<open>validateBlocks\<close> on the inChain blocks in store order; when requests are served one
  at a time that order is the ascending order of \<open>blockId\<close>: 0, 1, 2, ... The verdict is
  true iff the first block has an empty \<open>prevHash\<close>, every block's stored hash is the
  digest of its \<open>blockId\<close>, \<open>prevHash\<close>, \<open>timestamp\<close> and \<open>records\<close>, every record that
  has an \<open>amount\<close> passes \<^verbatim>\<open>checkTransactionValidity\<close>, and every later block's
  \<open>prevHash\<close> is the stored hash of the block before it. Once a prefix of the list
  fails, the verdict is false whatever follows.
\<close>

lemma validateBlockchain_serial:
  "validateBlockchain L s = (Inr (validateBlocks L (chain s), chain s), s) \<and>
   (validateBlocks L bs \<longleftrightarrow>
      (bs \<noteq> [] \<longrightarrow> prevHash (bs ! 0) = []) \<and>
      (\<forall>j<length bs.
          hash (bs ! j) =
            computeBlockHash L (blockId (bs ! j)) (prevHash (bs ! j)) (timestamp (bs ! j))
              (records (bs ! j)) \<and>
          (\<forall>r\<in>set (records (bs ! j)). amount r \<noteq> None \<longrightarrow> checkTransactionValidity L r)) \<and>
      (\<forall>j. 0 < j \<and> j < length bs \<longrightarrow> prevHash (bs ! j) = hash (bs ! (j - 1)))) \<and>
   (\<forall>k rest. \<not> validateBlocks L (take k bs) \<longrightarrow> \<not> validateBlocks L (take k bs @ rest)) \<and>
   (reachable L s \<longrightarrow> map blockId (chain s) = map int [0..<length (chain s)])"
proof (intro conjI allI impI)
  show "validateBlockchain L s = (Inr (validateBlocks L (chain s), chain s), s)"
    by (simp add: validateBlockchain_def chain_def Let_def)
next
  show "validateBlocks L bs \<longleftrightarrow>
      (bs \<noteq> [] \<longrightarrow> prevHash (bs ! 0) = []) \<and>
      (\<forall>j<length bs.
          hash (bs ! j) =
            computeBlockHash L (blockId (bs ! j)) (prevHash (bs ! j)) (timestamp (bs ! j))
              (records (bs ! j)) \<and>
          (\<forall>r\<in>set (records (bs ! j)). amount r \<noteq> None \<longrightarrow> checkTransactionValidity L r)) \<and>
      (\<forall>j. 0 < j \<and> j < length bs \<longrightarrow> prevHash (bs ! j) = hash (bs ! (j - 1)))"
    by (rule validateBlocks_iff)
next
  fix k rest
  assume "\<not> validateBlocks L (take k bs)"
  then show "\<not> validateBlocks L (take k bs @ rest)"
    using validateBlocks_prefix by blast
next
  assume "reachable L s"
  then have "linked L (chain s)"
    by (intro store_invD(1) reachable_store_inv)
  then show "map blockId (chain s) = map int [0..<length (chain s)]"
    by (simp add: linked_def)
qed

lemma validateBlockchain_serial_demo:
  "validateBlockchain demo_lib demo_booted = (Inr (True, [demo_genesis]), demo_booted) \<and>
   \<not> validateBlocks demo_lib ([demo_genesis\<lparr>hash := []\<rparr>] @ [demo_genesis]) \<and>
   map blockId (chain demo_booted) = [0]"
proof -
  note t = validateBlockchain_serial [of demo_lib demo_booted "[demo_genesis]"]
  from t have "validateBlocks demo_lib [demo_genesis]"
    by (simp add: demo_genesis_def)
  with t have 1: "validateBlockchain demo_lib demo_booted = (Inr (True, [demo_genesis]), demo_booted)"
    by (simp add: demo_booted_chain)
  from t demo_reachable(1) have 3: "map blockId (chain demo_booted) = [0]"
    by (simp add: demo_booted_chain)
  note u = validateBlockchain_serial
    [of demo_lib demo_booted "[demo_genesis\<lparr>hash := []\<rparr>, demo_genesis]"]
  have bad: "\<not> validateBlocks demo_lib [demo_genesis\<lparr>hash := []\<rparr>]"
    using validateBlockchain_serial [of demo_lib demo_booted "[demo_genesis\<lparr>hash := []\<rparr>]"]
    by (simp add: demo_genesis_def computeBlockHash_def demo_lib_def)
  from u have "\<not> validateBlocks demo_lib (take 1 [demo_genesis\<lparr>hash := []\<rparr>, demo_genesis]) \<longrightarrow>
      \<not> validateBlocks demo_lib (take 1 [demo_genesis\<lparr>hash := []\<rparr>, demo_genesis] @ [demo_genesis])"
    by blast
  with bad have 2: "\<not> validateBlocks demo_lib ([demo_genesis\<lparr>hash := []\<rparr>] @ [demo_genesis])"
    by simp
  from 1 2 3 show ?thesis by simp
qed

text \<open>
  C3, at the store reached when the approvals of bob and carol on block 1 are in flight
  together and both reach the threshold, and the two staging blocks they leave are then
  committed, the later one first: the chain has one block for each \<open>blockId\<close> 0, 1, 2, 3
  and in ascending order of \<open>blockId\<close> it passes \<^verbatim>\<open>validateBlocks\<close>, but
  \<^verbatim>\<open>validateBlockchain\<close> iterates it in store order, 0, 1, 3, 2, and answers false.
\<close>

theorem validateBlockchain_follows_store_order:
  "reachable_interleaved demo_lib (overlap_final, []) \<and>
   map blockId (chain overlap_final) = [0, 1, 3, 2] \<and>
   fst (validateBlockchain demo_lib overlap_final) = Inr (False, chain overlap_final) \<and>
   validateBlocks demo_lib (sort_key blockId (chain overlap_final))"
proof -
  have bad: "\<not> validateBlocks demo_lib [demo_genesis, chained1, chained3, chained2]"
  proof
    assume "validateBlocks demo_lib [demo_genesis, chained1, chained3, chained2]"
    then have "prevHash ([demo_genesis, chained1, chained3, chained2] ! 2) =
               hash ([demo_genesis, chained1, chained3, chained2] ! (2 - 1))"
      unfolding validateBlocks_iff by (auto dest!: spec [of _ 2])
    with overlap_links show False by simp
  qed
  let ?bs = "[demo_genesis, chained1, chained2, chained3]"
  have link: "\<forall>j. 0 < j \<and> j < length ?bs \<longrightarrow> prevHash (?bs ! j) = hash (?bs ! (j - 1))"
  proof (intro allI impI)
    fix j assume "0 < j \<and> j < length ?bs"
    then have "j = 1 \<or> j = 2 \<or> j = 3" by auto
    then show "prevHash (?bs ! j) = hash (?bs ! (j - 1))"
      using overlap_links by auto
  qed
  have each: "\<forall>j < length ?bs.
        hash (?bs ! j) = computeBlockHash demo_lib (blockId (?bs ! j)) (prevHash (?bs ! j))
                           (timestamp (?bs ! j)) (records (?bs ! j)) \<and>
        (\<forall>r\<in>set (records (?bs ! j)). amount r \<noteq> None \<longrightarrow> checkTransactionValidity demo_lib r)"
  proof (intro allI impI)
    fix j assume "j < length ?bs"
    then have "?bs ! j \<in> set ?bs"
      by (rule nth_mem)
    with overlap_hashes
    show "hash (?bs ! j) = computeBlockHash demo_lib (blockId (?bs ! j)) (prevHash (?bs ! j))
                           (timestamp (?bs ! j)) (records (?bs ! j)) \<and>
        (\<forall>r\<in>set (records (?bs ! j)). amount r \<noteq> None \<longrightarrow> checkTransactionValidity demo_lib r)"
      by (rule bspec)
  qed
  have first: "?bs \<noteq> [] \<longrightarrow> prevHash (?bs ! 0) = []"
    by (simp add: overlap_links)
  have good: "validateBlocks demo_lib ?bs"
    unfolding validateBlocks_iff using first each link by (intro conjI)
  show ?thesis
    using overlap_final_reachable bad good
    by (simp add: validateBlockchain_def Let_def overlap_chain [unfolded chain_def] chain_def
          overlap_blockIds overlap_sorted)
qed

section \<open>Tamper detection\<close>

text \<open>
  C4. Let \<^verbatim>\<open>validateBlockchain\<close> answer true on a store, and let one inChain block be
  replaced by a copy that differs in exactly one of \<open>blockId\<close>, \<open>prevHash\<close>,
  \<open>timestamp\<close>, \<open>hash\<close> and \<open>records\<close>. Then \<^verbatim>\<open>validateBlockchain\<close> answers false,
  provided SHA-256 does not collide on the texts of the old and the new block and
  \<^verbatim>\<open>JSON.stringify\<close> tells the old and the new record list apart. (For a changed
  \<open>hash\<close> or \<open>prevHash\<close> neither proviso is needed: lemma \<open>tamper_link\<close>.)
\<close>

theorem tampering_detected:
  assumes valid: "fst (validateBlockchain L s) = Inr (True, chain s)"
      and k: "k < length (blocks s)" and st: "status (blocks s ! k) = ''inChain''"
      and change:
        "(\<exists>v. v \<noteq> blockId (blocks s ! k) \<and> b' = (blocks s ! k)\<lparr>blockId := v\<rparr>) \<or>
         (\<exists>v. v \<noteq> prevHash (blocks s ! k) \<and> b' = (blocks s ! k)\<lparr>prevHash := v\<rparr>) \<or>
         (\<exists>v. v \<noteq> timestamp (blocks s ! k) \<and> b' = (blocks s ! k)\<lparr>timestamp := v\<rparr>) \<or>
         (\<exists>v. v \<noteq> hash (blocks s ! k) \<and> b' = (blocks s ! k)\<lparr>hash := v\<rparr>) \<or>
         (\<exists>v. v \<noteq> records (blocks s ! k) \<and> b' = (blocks s ! k)\<lparr>records := v\<rparr>)"
      and no_collision:
        "sha256_hex L (block_text L b') = sha256_hex L (block_text L (blocks s ! k)) \<longrightarrow>
         block_text L b' = block_text L (blocks s ! k)"
      and json:
        "JSON_stringify L (records b') = JSON_stringify L (records (blocks s ! k)) \<longrightarrow>
         records b' = records (blocks s ! k)"
  shows "fst (validateBlockchain L (s\<lparr>blocks := (blocks s)[k := b']\<rparr>)) =
           Inr (False, chain (s\<lparr>blocks := (blocks s)[k := b']\<rparr>))"
proof -
  let ?P = "\<lambda>d. status d = ''inChain''"
  let ?j = "length (filter ?P (take k (blocks s)))"
  from change st have st': "status b' = ''inChain''"
    by (elim disjE exE conjE) simp_all
  from filter_list_update [of k "blocks s" ?P b'] k st st'
  have f: "filter ?P ((blocks s)[k := b']) = (filter ?P (blocks s))[?j := b']"
    and j: "?j < length (filter ?P (blocks s))"
    and e: "filter ?P (blocks s) ! ?j = blocks s ! k"
    by simp_all
  from valid have v: "validateBlocks L (filter ?P (blocks s))"
    by (simp add: validateBlockchain_def Let_def chain_def)
  have "\<not> validateBlocks L ((filter ?P (blocks s))[?j := b'])"
    by (rule tamper_list [OF v j]) (use change no_collision json in \<open>simp_all only: e\<close>)
  then show ?thesis
    by (simp add: validateBlockchain_def Let_def chain_def f)
qed

theorem tampering_detected_witness:
  "fst (validateBlockchain demo_lib demo_booted) = Inr (True, [demo_genesis]) \<and>
   fst (validateBlockchain demo_lib
          (demo_booted\<lparr>blocks := [demo_genesis\<lparr>timestamp := ''tx''\<rparr>, demo_staged]\<rparr>)) =
     Inr (False, [demo_genesis\<lparr>timestamp := ''tx''\<rparr>])"
proof -
  have bl: "blocks demo_booted = [demo_genesis, demo_staged]"
    by (simp add: demo_booted_eq)
  have valid: "fst (validateBlockchain demo_lib demo_booted) = Inr (True, chain demo_booted)"
    using demo_genesis_valid
    by (simp add: validateBlockchain_def Let_def demo_booted_chain [unfolded chain_def] chain_def)
  have k: "0 < length (blocks demo_booted)" by (simp add: bl)
  have st: "status (blocks demo_booted ! 0) = ''inChain''"
    by (simp add: bl demo_genesis_def)
  have change:
     "(\<exists>v. v \<noteq> blockId (blocks demo_booted ! 0) \<and>
           demo_genesis\<lparr>timestamp := ''tx''\<rparr> = (blocks demo_booted ! 0)\<lparr>blockId := v\<rparr>) \<or>
      (\<exists>v. v \<noteq> prevHash (blocks demo_booted ! 0) \<and>
           demo_genesis\<lparr>timestamp := ''tx''\<rparr> = (blocks demo_booted ! 0)\<lparr>prevHash := v\<rparr>) \<or>
      (\<exists>v. v \<noteq> timestamp (blocks demo_booted ! 0) \<and>
           demo_genesis\<lparr>timestamp := ''tx''\<rparr> = (blocks demo_booted ! 0)\<lparr>timestamp := v\<rparr>) \<or>
      (\<exists>v. v \<noteq> hash (blocks demo_booted ! 0) \<and>
           demo_genesis\<lparr>timestamp := ''tx''\<rparr> = (blocks demo_booted ! 0)\<lparr>hash := v\<rparr>) \<or>
      (\<exists>v. v \<noteq> records (blocks demo_booted ! 0) \<and>
           demo_genesis\<lparr>timestamp := ''tx''\<rparr> = (blocks demo_booted ! 0)\<lparr>records := v\<rparr>)"
    by (intro disjI2 disjI1 exI [of _ "''tx''"]) (simp add: bl demo_genesis_def)
  have nc: "sha256_hex demo_lib (block_text demo_lib (demo_genesis\<lparr>timestamp := ''tx''\<rparr>)) =
        sha256_hex demo_lib (block_text demo_lib (blocks demo_booted ! 0)) \<longrightarrow>
      block_text demo_lib (demo_genesis\<lparr>timestamp := ''tx''\<rparr>) =
        block_text demo_lib (blocks demo_booted ! 0)"
    by (simp add: demo_lib_def)
  have js: "JSON_stringify demo_lib (records (demo_genesis\<lparr>timestamp := ''tx''\<rparr>)) =
        JSON_stringify demo_lib (records (blocks demo_booted ! 0)) \<longrightarrow>
      records (demo_genesis\<lparr>timestamp := ''tx''\<rparr>) = records (blocks demo_booted ! 0)"
    by (simp add: bl)
  from tampering_detected [OF valid k st change nc js]
  have "fst (validateBlockchain demo_lib
          (demo_booted\<lparr>blocks := [demo_genesis\<lparr>timestamp := ''tx''\<rparr>, demo_staged]\<rparr>)) =
     Inr (False, [demo_genesis\<lparr>timestamp := ''tx''\<rparr>])"
    by (simp add: bl chain_def demo_genesis_def demo_staged_def)
  with valid show ?thesis by (simp add: demo_booted_chain)
qed

section \<open>Duplicate votes\<close>

text \<open>
  \<^verbatim>\<open>approveBlock\<close> by a user who is in \<open>approvedBy\<close> or \<open>rejectedBy\<close> of a block with
  the given id fails with the BadRequest error "Already rejected or approved this block"
  and returns the store unchanged. When requests are served one at a time, the two vote
  lists of every block, taken together, have no duplicate; and no step removes a block,
  changes a block's id, or removes a user from a vote list.
\<close>

lemma duplicate_vote_serial:
  "(\<forall>d\<in>set (blocks s).
       oid d = blockID \<and> (uname \<in> set (approvedBy d) \<or> uname \<in> set (rejectedBy d)) \<longrightarrow>
       approveBlock L blockID isApproved uname s =
         (Inl (BadRequestError ''Already rejected or approved this block''), s)) \<and>
   (reachable L s \<longrightarrow> (\<forall>d\<in>set (blocks s). distinct (approvedBy d @ rejectedBy d))) \<and>
   (reachable L s \<and> step L s s' \<longrightarrow> votes_kept (blocks s) (blocks s'))"
proof (intro conjI ballI impI)
  fix d
  assume d: "d \<in> set (blocks s)"
    "oid d = blockID \<and> (uname \<in> set (approvedBy d) \<or> uname \<in> set (rejectedBy d))"
  then have "findOne (\<lambda>d. oid d = blockID \<and> (uname \<in> set (approvedBy d) \<or> uname \<in> set (rejectedBy d)))
               (blocks s) \<noteq> None"
    unfolding findOne_None_iff by blast
  then show "approveBlock L blockID isApproved uname s =
      (Inl (BadRequestError ''Already rejected or approved this block''), s)"
    by (auto simp: approveBlock_def)
next
  fix d
  assume "reachable L s" "d \<in> set (blocks s)"
  then show "distinct (approvedBy d @ rejectedBy d)"
    using store_invD(7) [OF reachable_store_inv] by blast
next
  assume "reachable L s \<and> step L s s'"
  then show "votes_kept (blocks s) (blocks s')"
    using votes_kept_step [OF reachable_store_inv] by blast
qed

lemma duplicate_vote_serial_demo:
  "approveBlock demo_lib 1 False ''alice'' demo_voted =
     (Inl (BadRequestError ''Already rejected or approved this block''), demo_voted) \<and>
   distinct (approvedBy demo_vote @ rejectedBy demo_vote) \<and>
   votes_kept (blocks demo_pending) (blocks demo_voted)"
proof -
  have mem: "demo_vote \<in> set (blocks demo_voted)"
    by (simp add: demo_voted_eq demo_empty_def demo_vote_def)
  have dup: "oid demo_vote = 1 \<and>
      (''alice'' \<in> set (approvedBy demo_vote) \<or> ''alice'' \<in> set (rejectedBy demo_vote))"
    by (simp add: demo_vote_def demo_staged_def)
  have st: "step demo_lib demo_pending demo_voted"
    unfolding demo_voted_def by (rule step_approveBlock)
  note t = duplicate_vote_serial [of demo_voted 1 "''alice''" demo_lib False]
  from t mem dup have 1: "approveBlock demo_lib 1 False ''alice'' demo_voted =
     (Inl (BadRequestError ''Already rejected or approved this block''), demo_voted)"
    by blast
  from t mem demo_reachable(3) have 2: "distinct (approvedBy demo_vote @ rejectedBy demo_vote)"
    by blast
  from duplicate_vote_serial [of demo_pending 1 "''alice''" demo_lib False demo_voted]
    demo_reachable(2) st
  have 3: "votes_kept (blocks demo_pending) (blocks demo_voted)"
    by blast
  from 1 2 3 show ?thesis by simp
qed

text \<open>
  C5, at the store reached when an approval and a rejection of alice on the Pending
  block 1 are in flight together: both pass the check for an earlier vote before either
  update is written, each update adds her name to its own list, and she is in
  \<open>approvedBy\<close> and in \<open>rejectedBy\<close> of the block.
\<close>

theorem concurrent_votes_in_both_lists:
  "reachable_interleaved demo_lib (raced_votes, []) \<and>
   map approvedBy (blocks raced_votes) = [[], [''alice'']] \<and>
   map rejectedBy (blocks raced_votes) = [[], [''alice'']]"
  using raced_votes_reachable
  by (simp add: raced_votes_def demo_genesis_def demo_staged_def)

section \<open>Activation\<close>

text \<open>
  C6. \<^verbatim>\<open>activateBlock\<close> on a Hibernating block whose record list does not have exactly
  \<open>MAX_RECORD = 2\<close> entries fails with the BadRequest error "Insufficient records in this
  block" and leaves the whole store as it was. When it succeeds (block ids being
  unique), the block it found was Hibernating with exactly two records, and that block
  alone changes: its status becomes Pending and its timestamp is renewed.
\<close>

theorem activateBlock_requires_full_batch:
  "MAX_RECORD = 2 \<and>
   (\<forall>b. findOne (\<lambda>d. oid d = blockID \<and> status d = ''Hibernating'') (blocks s) = Some b \<and>
        length (records b) \<noteq> 2 \<longrightarrow>
        activateBlock L blockID s =
          (Inl (BadRequestError ''Insufficient records in this block''), s)) \<and>
   (\<forall>r s'. activateBlock L blockID s = (Inr r, s') \<and> distinct (map oid (blocks s)) \<longrightarrow>
        (\<exists>bs1 b bs2. blocks s = bs1 @ b # bs2 \<and> oid b = blockID \<and>
           status b = ''Hibernating'' \<and> length (records b) = 2 \<and>
           r = Some (b\<lparr>status := ''Pending'', timestamp := toLocaleString L (clock s)\<rparr>) \<and>
           blocks s' =
             bs1 @ b\<lparr>status := ''Pending'', timestamp := toLocaleString L (clock s)\<rparr> # bs2))"
proof (intro conjI allI impI)
  show "MAX_RECORD = 2" by (simp add: MAX_RECORD_def)
next
  fix b
  assume "findOne (\<lambda>d. oid d = blockID \<and> status d = ''Hibernating'') (blocks s) = Some b \<and>
          length (records b) \<noteq> 2"
  then show "activateBlock L blockID s =
      (Inl (BadRequestError ''Insufficient records in this block''), s)"
    by (simp add: activateBlock_def MAX_RECORD_def)
next
  fix r s'
  assume a: "activateBlock L blockID s = (Inr r, s') \<and> distinct (map oid (blocks s))"
  then obtain b where
    found: "findOne (\<lambda>d. oid d = blockID \<and> status d = ''Hibernating'') (blocks s) = Some b"
    by (cases "findOne (\<lambda>d. oid d = blockID \<and> status d = ''Hibernating'') (blocks s)")
       (auto simp: activateBlock_def)
  from a found have len: "length (records b) = 2"
    by (auto simp: activateBlock_def MAX_RECORD_def Let_def split: if_splits)
  from findOne_SomeD [OF found] have b: "b \<in> set (blocks s)" "oid b = blockID"
    "status b = ''Hibernating''"
    by auto
  from b(1) obtain bs1 bs2 where split: "blocks s = bs1 @ b # bs2"
    by (auto dest: split_list)
  from a have "distinct (map oid (blocks s))"
    by simp
  then have nin: "oid b \<notin> oid ` set bs1"
    unfolding split by simp
  have "\<forall>x\<in>set bs1. \<not> oid x = blockID"
  proof
    fix x
    assume "x \<in> set bs1"
    then have "oid x \<in> oid ` set bs1"
      by simp
    with nin show "\<not> oid x = blockID"
      unfolding b(2) [symmetric] by metis
  qed
  then have upd: "\<And>f. findOneAndUpdate (\<lambda>d. oid d = blockID) f (blocks s) =
      (Some (f b), bs1 @ f b # bs2)"
    unfolding split using b(2) by (intro findOneAndUpdate_middle) auto
  from a found len upd
  have "r = Some (b\<lparr>status := ''Pending'', timestamp := toLocaleString L (clock s)\<rparr>) \<and>
        blocks s' = bs1 @ b\<lparr>status := ''Pending'', timestamp := toLocaleString L (clock s)\<rparr> # bs2"
    by (auto simp: activateBlock_def MAX_RECORD_def Let_def new_Date_def)
  with split b len
  show "\<exists>bs1 b bs2. blocks s = bs1 @ b # bs2 \<and> oid b = blockID \<and>
           status b = ''Hibernating'' \<and> length (records b) = 2 \<and>
           r = Some (b\<lparr>status := ''Pending'', timestamp := toLocaleString L (clock s)\<rparr>) \<and>
           blocks s' =
             bs1 @ b\<lparr>status := ''Pending'', timestamp := toLocaleString L (clock s)\<rparr> # bs2"
    by blast
qed

theorem activateBlock_requires_full_batch_witness:
  "activateBlock demo_lib 0 (demo_store [demo_block 0 ''Hibernating'' [demo_rcd 0]] []) =
     (Inl (BadRequestError ''Insufficient records in this block''),
      demo_store [demo_block 0 ''Hibernating'' [demo_rcd 0]] []) \<and>
   (\<exists>r s'. activateBlock demo_lib 0
              (demo_store [demo_block 0 ''Hibernating'' [demo_rcd 0, demo_rcd 1]] []) = (Inr r, s') \<and>
           map status (blocks s') = [''Pending''])"
proof -
  let ?s1 = "demo_store [demo_block 0 ''Hibernating'' [demo_rcd 0]] []"
  let ?s2 = "demo_store [demo_block 0 ''Hibernating'' [demo_rcd 0, demo_rcd 1]] []"
  have h1: "findOne (\<lambda>d. oid d = 0 \<and> status d = ''Hibernating'') (blocks ?s1) =
              Some (demo_block 0 ''Hibernating'' [demo_rcd 0]) \<and>
            length (records (demo_block 0 ''Hibernating'' [demo_rcd 0])) \<noteq> 2"
    by (simp add: demo_store_def demo_block_def)
  have first: "activateBlock demo_lib 0 ?s1 =
      (Inl (BadRequestError ''Insufficient records in this block''), ?s1)"
    using activateBlock_requires_full_batch [of 0 ?s1 demo_lib] h1 by blast
  obtain r s' where run: "activateBlock demo_lib 0 ?s2 = (Inr r, s')"
    by (simp add: activateBlock_def demo_store_def demo_block_def MAX_RECORD_def new_Date_def)
  have d: "distinct (map oid (blocks ?s2))"
    by (simp add: demo_store_def)
  from activateBlock_requires_full_batch [of 0 ?s2 demo_lib] run d
  obtain bs1 b bs2 where
    "blocks ?s2 = bs1 @ b # bs2"
    "blocks s' = bs1 @ b\<lparr>status := ''Pending'', timestamp := toLocaleString demo_lib (clock ?s2)\<rparr> # bs2"
    by blast
  then have "map status (blocks s') = [''Pending'']"
    by (cases bs1) (auto simp: demo_store_def)
  with first run show ?thesis by auto
qed

section \<open>Bootstrap with one waiting record\<close>

text \<open>
  C7, at a store without blocks whose pool of approved records holds exactly one entry:
  \<^verbatim>\<open>getBlockchain\<close> creates the genesis block and then fails with the TypeError of
  \<^verbatim>\<open>createHibernateBlock\<close>; the store is left with the genesis block alone and no
  Hibernating block.
\<close>

theorem getBlockchain_no_staging_block:
  "fst (getBlockchain demo_lib (demo_store [] [\<lparr>ar_id = 0, ar_records = demo_rcd 0\<rparr>])) =
     Inl TypeError \<and>
   map status (blocks (snd (getBlockchain demo_lib
                              (demo_store [] [\<lparr>ar_id = 0, ar_records = demo_rcd 0\<rparr>])))) =
     [''inChain'']"
  by (simp add: getBlockchain_def demo_store_def createGenesisBlock_def
        createHibernateBlock_def hibernate_loop_0 new_Date_def BlockModel_create_def
        schema_block_def Let_def)

section \<open>The waiting block\<close>

lemma getWaitingBlock_finds_Hibernating:
  "getWaitingBlock s = (Inr (findOne (\<lambda>d. status d = ''Hibernating'') (blocks s)), s)"
  by (simp add: getWaitingBlock_def js_or_def)

text \<open>
  On the store of the concrete run after the activation, the staging block is Pending and
  the handler answers null.
\<close>

lemma getWaitingBlock_demo_pending:
  "reachable demo_lib demo_pending \<and>
   map status (blocks demo_pending) = [''inChain'', ''Pending''] \<and>
   fst (getWaitingBlock demo_pending) = Inr None"
  using demo_reachable(2)
  by (simp add: getWaitingBlock_def js_or_def demo_pending_eq demo_empty_def demo_genesis_def
        demo_staged_def)

text \<open>
  C8, at a store whose staging block is Pending: the filter \<^verbatim>\<open>"Hibernating" || "Pending"\<close>
  is the string \<^verbatim>\<open>"Hibernating"\<close>, so \<^verbatim>\<open>getWaitingBlock\<close> answers null although a
  Pending block exists.
\<close>

theorem getWaitingBlock_misses_Pending:
  "map status (blocks (demo_store [demo_block 0 ''Pending'' [demo_rcd 0, demo_rcd 1]] [])) =
     [''Pending''] \<and>
   fst (getWaitingBlock (demo_store [demo_block 0 ''Pending'' [demo_rcd 0, demo_rcd 1]] [])) =
     Inr None"
  by (simp add: getWaitingBlock_def js_or_def demo_store_def demo_block_def)

section \<open>Record status propagation\<close>

text \<open>
  C9. \<^verbatim>\<open>updateRecordsStatus\<close> rewrites the status of exactly the Transaction and
  SupplyChain records whose status is inBlock, to inChain, and \<^verbatim>\<open>rejectRecords\<close> rewrites
  the same records to Rejected; nothing else of any record changes and no block is
  consulted. On a reachable store an accepted vote leaves both collections as
  \<^verbatim>\<open>updateRecordsStatus\<close> makes them when the approve threshold is reached, as
  \<^verbatim>\<open>rejectRecords\<close> makes them when only the reject threshold is reached, and unchanged
  otherwise.
\<close>

theorem record_status_propagation:
  "transactions (updateRecordsStatus s) =
     map (\<lambda>r. if rstatus r = ''inBlock'' then r\<lparr>rstatus := ''inChain''\<rparr> else r) (transactions s) \<and>
   supplychains (updateRecordsStatus s) =
     map (\<lambda>r. if rstatus r = ''inBlock'' then r\<lparr>rstatus := ''inChain''\<rparr> else r) (supplychains s) \<and>
   transactions (rejectRecords s) =
     map (\<lambda>r. if rstatus r = ''inBlock'' then r\<lparr>rstatus := ''Rejected''\<rparr> else r) (transactions s) \<and>
   supplychains (rejectRecords s) =
     map (\<lambda>r. if rstatus r = ''inBlock'' then r\<lparr>rstatus := ''Rejected''\<rparr> else r) (supplychains s) \<and>
   (reachable L s \<and>
    findOne (\<lambda>d. oid d = blockID \<and> status d = ''Pending'') (blocks s) = Some b \<and>
    uname \<notin> set (approvedBy b) \<union> set (rejectedBy b) \<longrightarrow>
      (let b1 = addToSet_vote isApproved uname b;
           s' = snd (approveBlock L blockID isApproved uname s)
       in if approve_reached s b1 then
            transactions s' = transactions (updateRecordsStatus s) \<and>
            supplychains s' = supplychains (updateRecordsStatus s)
          else if reject_reached s b1 then
            transactions s' = transactions (rejectRecords s) \<and>
            supplychains s' = supplychains (rejectRecords s)
          else transactions s' = transactions s \<and> supplychains s' = supplychains s))"
proof (intro conjI impI)
  assume a: "reachable L s \<and>
    findOne (\<lambda>d. oid d = blockID \<and> status d = ''Pending'') (blocks s) = Some b \<and>
    uname \<notin> set (approvedBy b) \<union> set (rejectedBy b)"
  let ?b1 = "addToSet_vote isApproved uname b"
  let ?s' = "snd (approveBlock L blockID isApproved uname s)"
  from a have inv: "store_inv L s" by (simp add: reachable_store_inv)
  from a have found: "findOne (\<lambda>d. oid d = blockID \<and> status d = ''Pending'') (blocks s) = Some b"
    and fresh: "uname \<notin> set (approvedBy b) \<union> set (rejectedBy b)"
    by simp_all
  from inv found fresh obtain bs where
    run: "?s' =
       (if approve_reached s ?b1 then
          snd (createHibernateBlock L (approve_store L (s\<lparr>blocks := bs @ [?b1]\<rparr>) bs ?b1))
        else if reject_reached s ?b1 then
          snd (createHibernateBlock L (reject_store L (s\<lparr>blocks := bs @ [?b1]\<rparr>) bs ?b1))
        else s\<lparr>blocks := bs @ [?b1]\<rparr>)"
    by (rule accepted_vote [where isApproved = isApproved])
  let ?sa = "approve_store L (s\<lparr>blocks := bs @ [?b1]\<rparr>) bs ?b1"
  let ?sr = "reject_store L (s\<lparr>blocks := bs @ [?b1]\<rparr>) bs ?b1"
  from createHibernateBlock_prefix [of L ?sa]
  have ta: "transactions (snd (createHibernateBlock L ?sa)) = transactions (updateRecordsStatus s)"
    "supplychains (snd (createHibernateBlock L ?sa)) = supplychains (updateRecordsStatus s)"
    by (auto simp: approve_store_def updateRecordsStatus_def)
  from createHibernateBlock_prefix [of L ?sr]
  have tr: "transactions (snd (createHibernateBlock L ?sr)) = transactions (rejectRecords s)"
    "supplychains (snd (createHibernateBlock L ?sr)) = supplychains (rejectRecords s)"
    by (auto simp: reject_store_def rejectRecords_def)
  show "let b1 = addToSet_vote isApproved uname b;
           s' = snd (approveBlock L blockID isApproved uname s)
       in if approve_reached s b1 then
            transactions s' = transactions (updateRecordsStatus s) \<and>
            supplychains s' = supplychains (updateRecordsStatus s)
          else if reject_reached s b1 then
            transactions s' = transactions (rejectRecords s) \<and>
            supplychains s' = supplychains (rejectRecords s)
          else transactions s' = transactions s \<and> supplychains s' = supplychains s"
    unfolding Let_def run using ta tr by simp
qed (simp_all add: updateRecordsStatus_def rejectRecords_def updateMany_def)

theorem record_status_propagation_witness:
  "map rstatus (transactions demo_voted) = [''inBlock'', ''Created''] \<and>
   map rstatus (supplychains demo_voted) = [''inBlock''] \<and>
   map rstatus (transactions demo_committed) = [''inChain'', ''Created''] \<and>
   map rstatus (supplychains demo_committed) = [''inChain'']"
proof -
  have hyp: "reachable demo_lib demo_voted \<and>
      findOne (\<lambda>d. oid d = 1 \<and> status d = ''Pending'') (blocks demo_voted) = Some demo_vote \<and>
      ''bob'' \<notin> set (approvedBy demo_vote) \<union> set (rejectedBy demo_vote)"
    using demo_reachable(3) demo_vote_found demo_vote_fresh by simp
  note t = record_status_propagation [of demo_voted demo_lib 1 demo_vote "''bob''" True]
  from t hyp demo_vote_reached
  have "transactions demo_committed = transactions (updateRecordsStatus demo_voted) \<and>
        supplychains demo_committed = supplychains (updateRecordsStatus demo_voted)"
    unfolding Let_def demo_committed_def by simp
  moreover from t have "transactions (updateRecordsStatus demo_voted) =
     map (\<lambda>r. if rstatus r = ''inBlock'' then r\<lparr>rstatus := ''inChain''\<rparr> else r) (transactions demo_voted)"
    "supplychains (updateRecordsStatus demo_voted) =
     map (\<lambda>r. if rstatus r = ''inBlock'' then r\<lparr>rstatus := ''inChain''\<rparr> else r) (supplychains demo_voted)"
    by blast+
  ultimately show ?thesis
    by (simp add: demo_voted_eq demo_empty_def demo_rcd_def)
qed

section \<open>The staging block factory\<close>

text \<open>
  C10. In \<^verbatim>\<open>createHibernateBlock\<close> a non-empty pool makes the loop read the entries at
  indices 0 and 1 whatever the pool's length: the loop ends in a TypeError exactly when
  the array holds fewer than \<open>MAX_RECORD = 2\<close> entries. So creating the staging block
  fails exactly when one approved record is waiting, and succeeds exactly when the pool
  is empty or holds at least two.
\<close>

theorem createHibernateBlock_reads_past_pool:
  "((\<exists>e. fst (hibernate_loop record 0 [] s) = Inl e) = (length record < MAX_RECORD)) \<and>
   MAX_RECORD = 2 \<and>
   ((fst (createHibernateBlock L s) = Inl TypeError) = (length (approvedRecords s) = 1)) \<and>
   ((\<exists>hb. fst (createHibernateBlock L s) = Inr hb) =
      (approvedRecords s = [] \<or> 2 \<le> length (approvedRecords s)))"
proof -
  have loop: "(\<exists>e. fst (hibernate_loop record 0 [] s) = Inl e) = (length record < MAX_RECORD)"
    by (cases "record"; cases "tl record")
       (auto simp: hibernate_loop_0 MAX_RECORD_def split: list.splits)
  obtain r s' where rs: "createHibernateBlock L s = (r, s')"
    by (cases "createHibernateBlock L s")
  from createHibernateBlock_effect [OF rs]
  have fails: "(fst (createHibernateBlock L s) = Inl TypeError) = (length (approvedRecords s) = 1)"
    by (auto simp: rs)
  from createHibernateBlock_effect [OF rs]
  have succeeds: "(\<exists>hb. fst (createHibernateBlock L s) = Inr hb) =
      (approvedRecords s = [] \<or> 2 \<le> length (approvedRecords s))"
    by (cases "approvedRecords s"; cases "tl (approvedRecords s)") (auto simp: rs)
  show ?thesis
    using loop fails succeeds by (simp add: MAX_RECORD_def)
qed

end
